theory Spec2Isabelle
  imports Complex_Main
begin

section \<open>Time, randomness and fresh identifiers\<close>

text \<open>
  A naive \<open>datetime\<close> is the number of microseconds since the epoch and a \<open>date\<close>
  the number of the day; \<open>isoformat\<close> and \<open>fromisoformat\<close> are inverse to each other
  on both, so a field written with \<open>isoformat\<close> holds the value itself. Parsing a date
  gives the midnight that starts it.
\<close>

text \<open>
  Identifiers returned by \<open>str(uuid.uuid4())\<close> are modelled by the number the UUID
  stands for.
\<close>

type_synonym uuid = nat

type_synonym datetime = int
type_synonym date = int

definition usec_per_day :: int where
  "usec_per_day = 86400000000"

definition days :: "int \<Rightarrow> int" where
  "days n = n * usec_per_day"

definition hours :: "int \<Rightarrow> int" where
  "hours n = n * 3600000000"

definition minutes :: "int \<Rightarrow> int" where
  "minutes n = n * 60000000"

definition date_of :: "datetime \<Rightarrow> date" where
  "date_of t = t div usec_per_day"

definition midnight :: "date \<Rightarrow> datetime" where
  "midnight d = d * usec_per_day"

text \<open>\<open>t.replace(hour=h, minute=m, second=0, microsecond=0)\<close>\<close>

definition replace_hm :: "datetime \<Rightarrow> int \<Rightarrow> int \<Rightarrow> datetime" where
  "replace_hm t h m = midnight (date_of t) + hours h + minutes m"

text \<open>\<open>(a - b).days\<close> of two datetimes: the whole days of the difference, rounded down.\<close>

definition days_between :: "datetime \<Rightarrow> datetime \<Rightarrow> int" where
  "days_between a b = (a - b) div usec_per_day"

text \<open>
  The module \<open>random\<close> is a global generator seeded once; \<open>uuid.uuid4\<close> reads the
  operating system's entropy and is not touched by the seed. Both are input streams of
  the model: \<open>tape\<close> holds the raw outputs of the seeded generator that are still to
  come, \<open>entropy\<close> the values the next UUIDs are made of. Each library call takes one
  raw output and maps it onto its range, so that every result the library can return
  comes from some tape, and nothing else does; an exhausted stream yields zeros.
\<close>

record rng =
  tape :: "int list"
  entropy :: "nat list"

definition next_raw :: "rng \<Rightarrow> int \<times> rng" where
  "next_raw w = (case tape w of [] \<Rightarrow> (0, w) | r # rs \<Rightarrow> (r, w\<lparr>tape := rs\<rparr>))"

definition uuid4 :: "rng \<Rightarrow> uuid \<times> rng" where
  "uuid4 w = (case entropy w of [] \<Rightarrow> (0, w) | u # us \<Rightarrow> (u, w\<lparr>entropy := us\<rparr>))"

text \<open>\<open>random.randint(a, b)\<close>, called with \<open>a \<le> b\<close> only.\<close>

definition randint :: "int \<Rightarrow> int \<Rightarrow> rng \<Rightarrow> int \<times> rng" where
  "randint a b w = (let (r, w) = next_raw w in (a + r mod (b - a + 1), w))"

text \<open>
  \<open>random.random()\<close>: a multiple of \<open>2\<^sup>-\<^sup>5\<^sup>3\<close> in \<open>[0, 1)\<close>.
\<close>

definition random_unit :: "rng \<Rightarrow> real \<times> rng" where
  "random_unit w = (let (r, w) = next_raw w in (real_of_int (r mod 2 ^ 53) / 2 ^ 53, w))"

text \<open>
  \<open>random.choice(seq)\<close>. The callers modelled here guard every call whose sequence
  could be empty, and the guard is part of their model.
\<close>

definition choice :: "'a list \<Rightarrow> rng \<Rightarrow> 'a \<times> rng" where
  "choice xs w = (let (r, w) = next_raw w in (xs ! nat (r mod int (length xs)), w))"

text \<open>
  \<open>weighted_choice\<close> of config.py (\<open>random.choices\<close> with \<open>k=1\<close>). All weights in the
  tables are positive, so every listed value can be drawn; the weights decide how often,
  which no property here depends on.
\<close>

definition weighted_choice :: "('a \<times> real) list \<Rightarrow> rng \<Rightarrow> 'a \<times> rng" where
  "weighted_choice choices w = choice (map fst choices) w"

text \<open>
  \<open>random.sample(population, k)\<close> for \<open>k \<le> len(population)\<close>: \<open>k\<close> elements at
  pairwise different positions, in the order drawn.
\<close>

fun sample :: "'a list \<Rightarrow> nat \<Rightarrow> rng \<Rightarrow> 'a list \<times> rng" where
  "sample population 0 w = ([], w)"
| "sample population (Suc k) w =
     (if population = [] then ([], w)
      else
        (let (r, w) = next_raw w;
             j = nat (r mod int (length population));
             (rest, w) = sample (take j population @ drop (Suc j) population) k w
         in (population ! j # rest, w)))"

section \<open>Identifier and checksum subsystem (generators.py, class IncidentGenerator)\<close>

text \<open>Python strings are modelled as \<open>string\<close> (lists of 8-bit characters).\<close>

text \<open>The alphabet \<open>chars\<close> of \<open>_to_base36\<close> and \<open>_calculate_luhn_mod36_checksum\<close>.\<close>

definition base36_chars :: string where
  "base36_chars = ''0123456789ABCDEFGHIJKLMNOPQRSTUVWXYZ''"

text \<open>
  \<open>str.index\<close>: the position of the first occurrence, \<open>None\<close> standing for the
  \<open>ValueError\<close> raised when the character does not occur.
\<close>

fun index_of :: "'a list \<Rightarrow> 'a \<Rightarrow> nat option" where
  "index_of [] x = None"
| "index_of (y # ys) x = (if y = x then Some 0 else map_option Suc (index_of ys x))"

text \<open>
  \<open>str.upper\<close> on one character. On the 8-bit characters of the model only the
  letters \<open>a\<close>..\<open>z\<close> are mapped into the alphabet; every other character that Python
  would change is mapped to something outside the alphabet, as it is here when it is
  left alone.
\<close>

definition upper_char :: "char \<Rightarrow> char" where
  "upper_char c =
     (let n = (of_char c :: nat) in if 97 \<le> n \<and> n \<le> 122 then char_of (n - 32) else c)"

definition upper :: "string \<Rightarrow> string" where
  "upper s = map upper_char s"

text \<open>
  \<open>str.zfill\<close>: pad with zeros on the left up to the width; a leading sign stays in
  front of the padding.
\<close>

definition zfill :: "nat \<Rightarrow> string \<Rightarrow> string" where
  "zfill w s =
     (case s of
        [] \<Rightarrow> replicate w (CHR ''0'')
      | c # cs \<Rightarrow>
          if c = CHR ''+'' \<or> c = CHR ''-''
          then c # replicate (w - length s) (CHR ''0'') @ cs
          else replicate (w - length s) (CHR ''0'') @ s)"

text \<open>\<open>_to_base36\<close>: the loop \<open>while value > 0\<close> inserts digits at the front.\<close>

function to_base36_loop :: "int \<Rightarrow> string \<Rightarrow> string" where
  "to_base36_loop v result =
     (if v > 0 then to_base36_loop (v div 36) (base36_chars ! nat (v mod 36) # result)
      else result)"
  by pat_completeness auto
termination
  by (relation "measure (\<lambda>(v, r). nat v)") auto

declare to_base36_loop.simps [simp del]

definition to_base36 :: "int \<Rightarrow> string" where
  "to_base36 v = (if v = 0 then ''0'' else to_base36_loop v [])"

text \<open>
  \<open>_calculate_luhn_mod36_checksum\<close>. The loop runs over the input from its last
  character to its first; \<open>luhn_loop\<close> takes the reversed input, the current factor
  and the running sum. \<open>None\<close> is the \<open>ValueError\<close> of \<open>chars.index\<close>.
\<close>

fun luhn_loop :: "string \<Rightarrow> nat \<Rightarrow> nat \<Rightarrow> nat option" where
  "luhn_loop [] factor sum_val = Some sum_val"
| "luhn_loop (c # cs) factor sum_val =
     (case index_of base36_chars (upper_char c) of
        None \<Rightarrow> None
      | Some code_point \<Rightarrow>
          (let addend = factor * code_point;
               addend = addend div 36 + addend mod 36
           in luhn_loop cs (if factor = 2 then 1 else 2) (sum_val + addend)))"

definition calculate_luhn_mod36_checksum :: "string \<Rightarrow> char option" where
  "calculate_luhn_mod36_checksum input_str =
     (case luhn_loop (rev input_str) 2 0 of
        None \<Rightarrow> None
      | Some sum_val \<Rightarrow>
          (let remainder = sum_val mod 36;
               check_code_point = (36 - remainder) mod 36
           in Some (base36_chars ! check_code_point)))"

text \<open>\<open>_get_incident_type_code\<close>: \<open>type_map.get(incident_type, "O")\<close>.\<close>

definition type_map :: "(string \<times> string) list" where
  "type_map =
     [(''Fall'', ''F''), (''Medication'', ''M''), (''Behavioral'', ''B''),
      (''Medical'', ''X''), (''Injury'', ''I''), (''Elopement'', ''E''), (''Other'', ''O'')]"

definition get_incident_type_code :: "string \<Rightarrow> string" where
  "get_incident_type_code incident_type =
     (case map_of type_map incident_type of None \<Rightarrow> ''O'' | Some t \<Rightarrow> t)"

text \<open>The state of an \<open>IncidentGenerator\<close>: its two dictionaries.\<close>

record incident_generator =
  incident_counter_by_home :: "uuid \<rightharpoonup> int"
  home_sequence_map :: "uuid \<rightharpoonup> int"

definition new_incident_generator :: incident_generator where
  "new_incident_generator =
     \<lparr>incident_counter_by_home = Map.empty, home_sequence_map = Map.empty\<rparr>"

text \<open>
  \<open>_generate_incident_number\<close>. The result is \<open>None\<close> when the checksum raises.
\<close>

definition generate_incident_number ::
  "incident_generator \<Rightarrow> uuid \<Rightarrow> string \<Rightarrow> int \<Rightarrow> string option" where
  "generate_incident_number g home_id incident_type incident_count =
     (let type_code = get_incident_type_code incident_type;
          home_sequence = (case home_sequence_map g home_id of None \<Rightarrow> 1 | Some s \<Rightarrow> s);
          home_code = upper (zfill 2 (to_base36 home_sequence));
          sequence = upper (zfill 4 (to_base36 incident_count));
          payload = home_code @ sequence;
          full_payload = type_code @ ''IR'' @ payload
      in case calculate_luhn_mod36_checksum full_payload of
           None \<Rightarrow> None
         | Some checksum \<Rightarrow> Some (type_code @ ''IR'' @ payload @ [checksum]))"

section \<open>Incident records (generators.py, \<open>IncidentGenerator.generate\<close>)\<close>

definition INCIDENT_TYPES :: "(string \<times> real) list" where
  "INCIDENT_TYPES =
     [(''Fall'', 35 / 100), (''Medication'', 15 / 100), (''Behavioral'', 15 / 100),
      (''Medical'', 15 / 100), (''Injury'', 10 / 100), (''Other'', 8 / 100),
      (''Elopement'', 2 / 100)]"

definition INCIDENT_LOCATIONS :: "string list" where
  "INCIDENT_LOCATIONS =
     [''Bedroom'', ''Bathroom'', ''Living Room'', ''Dining Room'', ''Kitchen'', ''Hallway'',
      ''Front Entrance'', ''Back Yard'', ''Common Area'', ''Medication Room'']"

definition INCIDENT_IMAGES :: "string list" where
  "INCIDENT_IMAGES =
     [''image-001.png'', ''image-002.png'', ''image-003.png'', ''image-004.png'',
      ''image-005.png'', ''image-006.png'', ''image-007.png'']"

definition severity_map :: "(string \<times> int list) list" where
  "severity_map =
     [(''Fall'', [2, 3, 3, 4]), (''Medication'', [2, 2, 3]), (''Behavioral'', [1, 2, 2, 3]),
      (''Medical'', [2, 3, 3, 4]), (''Injury'', [2, 3, 3, 4]), (''Elopement'', [4, 4, 5]),
      (''Other'', [1, 2, 2])]"

definition status_weights :: "(string \<times> real) list" where
  "status_weights =
     [(''Closed'', 75 / 100), (''UnderReview'', 15 / 100), (''Submitted'', 8 / 100),
      (''Draft'', 2 / 100)]"

text \<open>
  A photo attachment. \<open>blobPath\<close> is kept as the three identifiers the path
  \<open>incident-photos/{home_id}/{incident_id}/{photo_id}.png\<close> is made of.
\<close>

record photo =
  ph_id :: uuid
  ph_incidentId :: uuid
  ph_blobPath :: "uuid \<times> uuid \<times> uuid"
  ph_fileName :: string
  ph_contentType :: string
  ph_fileSizeBytes :: int
  ph_displayOrder :: nat
  ph_caption :: "string option"
  ph_createdAt :: datetime
  ph_createdById :: uuid
  ph_sourceFile :: string

text \<open>
  An incident. The keys \<open>closedAt\<close>, \<open>closureNotes\<close> and \<open>closedById\<close> exist in the
  dictionary of a closed incident only; an absent key and the value \<open>None\<close> are both
  \<open>None\<close> here.
\<close>

record incident =
  inc_id :: uuid
  inc_incidentNumber :: string
  inc_clientId :: "uuid option"
  inc_homeId :: uuid
  inc_incidentType :: string
  inc_severity :: int
  inc_status :: string
  inc_occurredAt :: datetime
  inc_location :: string
  inc_description :: string
  inc_actionsTaken :: string
  inc_reportedById :: uuid
  inc_createdAt :: datetime
  inc_updatedAt :: "datetime option"
  inc_closedAt :: "datetime option"
  inc_closureNotes :: "string option"
  inc_closedById :: "uuid option"
  inc_photos :: "photo list"

definition captions :: "string option list" where
  "captions =
     [Some ''Photo of incident location'', Some ''Documentation of affected area'',
      Some ''Evidence of incident conditions'', None]"

text \<open>The loop of \<open>_generate_photos\<close> over \<open>enumerate(selected_images)\<close>, from index \<open>i\<close>.\<close>

fun photos_loop ::
  "nat \<Rightarrow> string list \<Rightarrow> uuid \<Rightarrow> uuid \<Rightarrow> uuid \<Rightarrow> datetime \<Rightarrow> rng \<Rightarrow> photo list \<times> rng" where
  "photos_loop i [] incident_id home_id uploader_id occurred_at w = ([], w)"
| "photos_loop i (image_file # images) incident_id home_id uploader_id occurred_at w =
     (let (photo_id, w) = uuid4 w;
          blob_path = (home_id, incident_id, photo_id);
          (size, w) = randint 50000 500000 w;
          (caption, w) = choice captions w;
          p = \<lparr>ph_id = photo_id, ph_incidentId = incident_id, ph_blobPath = blob_path,
               ph_fileName = image_file, ph_contentType = ''image/png'',
               ph_fileSizeBytes = size, ph_displayOrder = i, ph_caption = caption,
               ph_createdAt = occurred_at, ph_createdById = uploader_id,
               ph_sourceFile = image_file\<rparr>;
          (ps, w) = photos_loop (Suc i) images incident_id home_id uploader_id occurred_at w
      in (p # ps, w))"

definition generate_photos ::
  "uuid \<Rightarrow> uuid \<Rightarrow> uuid \<Rightarrow> datetime \<Rightarrow> rng \<Rightarrow> photo list \<times> rng" where
  "generate_photos incident_id home_id uploader_id occurred_at w =
     (let (num_photos, w) = randint 1 3 w;
          (selected_images, w) =
             sample INCIDENT_IMAGES (min (nat num_photos) (length INCIDENT_IMAGES)) w
      in photos_loop 0 selected_images incident_id home_id uploader_id occurred_at w)"

text \<open>
  \<open>_generate_description\<close> builds the whole dictionary of descriptions before it looks
  the type up, so the three \<open>random.choice\<close> calls inside it are made for every type.
\<close>

definition generate_description :: "string \<Rightarrow> string \<Rightarrow> rng \<Rightarrow> string \<times> rng" where
  "generate_description incident_type location w =
     (let (med_pass, w) = choice [''morning'', ''evening''] w;
          (complaint, w) =
             choice [''chest discomfort'', ''shortness of breath'', ''dizziness'',
                     ''severe headache''] w;
          (wound, w) = choice [''skin tear'', ''bruise'', ''abrasion''] w;
          descriptions =
            [(''Fall'', ''Resident found on floor in '' @ location
                @ ''. Stated they lost balance while attempting to stand.''),
             (''Medication'', ''Medication administration error discovered during ''
                @ med_pass @ '' med pass.''),
             (''Behavioral'', ''Resident exhibited agitated behavior in '' @ location
                @ ''. Verbal intervention attempted.''),
             (''Medical'', ''Resident complained of '' @ complaint @ '' in '' @ location @ ''.''),
             (''Injury'', ''Resident sustained minor '' @ wound @ '' in '' @ location @ ''.''),
             (''Elopement'',
                ''Resident found attempting to leave facility through main entrance.''),
             (''Other'', ''Incident occurred in '' @ location @ ''. See detailed notes.'')]
      in (case map_of descriptions incident_type of
            None \<Rightarrow> ''Incident occurred in '' @ location @ ''.''
          | Some d \<Rightarrow> d, w))"

definition generate_actions :: "string \<Rightarrow> string" where
  "generate_actions incident_type =
     (let actions =
        [(''Fall'', ''Assessed for injuries. Vitals checked. Family notified. Incident documented. Fall risk reassessed.''),
         (''Medication'', ''Physician notified. Medication reconciliation performed. Additional staff training scheduled.''),
         (''Behavioral'', ''De-escalation techniques applied. Care plan reviewed. Family notified of behavior changes.''),
         (''Medical'', ''Vitals monitored. Physician contacted. Emergency services notified. Family updated on condition.''),
         (''Injury'', ''First aid administered. Wound care provided. Physician informed. Incident documented.''),
         (''Elopement'', ''Resident safely returned. Security measures reviewed. Family and physician notified.''),
         (''Other'', ''Appropriate intervention provided. Supervisor notified. Incident documented per policy.'')]
      in case map_of actions incident_type of
           None \<Rightarrow> ''Appropriate actions taken. Incident documented.''
         | Some a \<Rightarrow> a)"

text \<open>
  \<open>IncidentGenerator.generate\<close>. It returns the incident, the generator with its
  counters updated and the rest of the random streams; \<open>None\<close> stands for the
  exception the checksum could raise. \<open>admin_user_ids\<close> is \<open>None\<close> when the argument
  is left out; \<open>if admin_user_ids\<close> is false for \<open>None\<close> and for the empty list.
\<close>

definition incident_generate ::
  "incident_generator \<Rightarrow> uuid \<Rightarrow> uuid option \<Rightarrow> uuid \<Rightarrow> datetime \<Rightarrow> int option
     \<Rightarrow> uuid list option \<Rightarrow> rng \<Rightarrow> (incident \<times> incident_generator \<times> rng) option" where
  "incident_generate g home_id client_id reporter_id occurred_at home_sequence admin_user_ids w =
     (let count = (case incident_counter_by_home g home_id of None \<Rightarrow> 0 | Some c \<Rightarrow> c) + 1;
          g = g\<lparr>incident_counter_by_home := (incident_counter_by_home g)(home_id \<mapsto> count)\<rparr>;
          g = (case home_sequence of
                 None \<Rightarrow> g
               | Some s \<Rightarrow>
                   if home_sequence_map g home_id = None
                   then g\<lparr>home_sequence_map := (home_sequence_map g)(home_id \<mapsto> s)\<rparr>
                   else g);
          (incident_type, w) = weighted_choice INCIDENT_TYPES w;
          (severity, w) =
             choice (case map_of severity_map incident_type of None \<Rightarrow> [2, 3] | Some l \<Rightarrow> l) w;
          (location, w) = choice INCIDENT_LOCATIONS w;
          (status, w) = weighted_choice status_weights w;
          (incident_id, w) = uuid4 w
      in case generate_incident_number g home_id incident_type count of
           None \<Rightarrow> None
         | Some incident_number \<Rightarrow>
             (let (description, w) = generate_description incident_type location w;
                  incident =
                    \<lparr>inc_id = incident_id, inc_incidentNumber = incident_number,
                     inc_clientId = client_id, inc_homeId = home_id,
                     inc_incidentType = incident_type, inc_severity = severity,
                     inc_status = status, inc_occurredAt = occurred_at,
                     inc_location = location, inc_description = description,
                     inc_actionsTaken = generate_actions incident_type,
                     inc_reportedById = reporter_id, inc_createdAt = occurred_at,
                     inc_updatedAt = None, inc_closedAt = None, inc_closureNotes = None,
                     inc_closedById = None, inc_photos = []\<rparr>;
                  (incident, w) =
                    (if status \<noteq> ''Draft''
                     then (let (update_offset, w) = randint 1 24 w;
                               updated_at = occurred_at + hours update_offset
                           in (incident\<lparr>inc_updatedAt := Some updated_at\<rparr>, w))
                     else (incident, w));
                  (incident, w) =
                    (if status = ''Closed''
                     then (let (d, w) = randint 1 7 w;
                               close_date = occurred_at + days d;
                               incident = incident\<lparr>inc_closedAt := Some close_date,
                                  inc_closureNotes :=
                                    Some ''Investigation complete. Preventive measures implemented.''\<rparr>;
                               (closer, w) =
                                 (case admin_user_ids of
                                    None \<Rightarrow> (reporter_id, w)
                                  | Some ids \<Rightarrow>
                                      if ids \<noteq> [] then choice ids w else (reporter_id, w))
                           in (incident\<lparr>inc_closedById := Some closer,
                                 inc_updatedAt := Some close_date\<rparr>, w))
                     else (incident, w));
                  (photos, w) = generate_photos incident_id home_id reporter_id occurred_at w
              in Some (incident\<lparr>inc_photos := photos\<rparr>, g, w)))"

text \<open>
  Two abbreviations of what \<open>generate\<close> writes into its dictionaries: the counter of
  the home after the call, and the map of home sequences after the call.
\<close>

definition counter_after :: "incident_generator \<Rightarrow> uuid \<Rightarrow> int" where
  "counter_after g h = (case incident_counter_by_home g h of None \<Rightarrow> 0 | Some c \<Rightarrow> c) + 1"

definition sequence_after :: "incident_generator \<Rightarrow> uuid \<Rightarrow> int option \<Rightarrow> uuid \<rightharpoonup> int" where
  "sequence_after g h hs =
     (case hs of None \<Rightarrow> home_sequence_map g
      | Some s \<Rightarrow> if home_sequence_map g h = None then (home_sequence_map g)(h \<mapsto> s)
                  else home_sequence_map g)"

text \<open>
  Successive calls of \<open>generate\<close> on the one generator of a run, as the loop of phase 6
  in generate.py makes them: each call is given by its arguments, and the incidents are
  collected in the order they are generated.
\<close>

type_synonym incident_call = "uuid \<times> uuid option \<times> uuid \<times> datetime \<times> int option \<times> uuid list option"

fun generate_calls ::
  "incident_generator \<Rightarrow> incident_call list \<Rightarrow> rng
     \<Rightarrow> (incident list \<times> incident_generator \<times> rng) option" where
  "generate_calls g [] w = Some ([], g, w)"
| "generate_calls g ((home_id, client_id, reporter_id, occurred_at, home_sequence, admin_user_ids)
       # calls) w =
     (case incident_generate g home_id client_id reporter_id occurred_at home_sequence
             admin_user_ids w of
        None \<Rightarrow> None
      | Some (inc, g, w) \<Rightarrow>
          (case generate_calls g calls w of
             None \<Rightarrow> None
           | Some (incs, g, w) \<Rightarrow> Some (inc # incs, g, w)))"

text \<open>
  The Sequence component \<open>NNNN\<close> of an incident number \<open>{T}IR{HH}{NNNN}{C}\<close>, and the
  order of characters by their code, by which strings are compared lexicographically.
\<close>

definition sequence_component :: "string \<Rightarrow> string" where
  "sequence_component n = take 4 (drop 5 n)"

definition char_less :: "(char \<times> char) set" where
  "char_less = {(x, y). (of_char x :: nat) < of_char y}"

text \<open>
  Conditions under which the fields of an incident number have their fixed widths: every
  home sequence known to the generator, and the one passed to a call, is below \<open>36\<^sup>2\<close>.
  \<open>count0\<close> reads the counter of a home, an absent entry counting as zero.
\<close>

definition seq_ok :: "incident_generator \<Rightarrow> bool" where
  "seq_ok g = (\<forall>h s. home_sequence_map g h = Some s \<longrightarrow> s < 36 ^ 2)"

definition hs_ok :: "int option \<Rightarrow> bool" where
  "hs_ok hs = (case hs of None \<Rightarrow> True | Some s \<Rightarrow> s < 36 ^ 2)"

definition count0 :: "incident_generator \<Rightarrow> uuid \<Rightarrow> int" where
  "count0 g h = (case incident_counter_by_home g h of None \<Rightarrow> 0 | Some c \<Rightarrow> c)"

section \<open>Residents and bed occupancy (\<open>ClientGenerator.generate\<close>; generate.py, phase 3)\<close>

definition DISCHARGE_REASONS :: "string list" where
  "DISCHARGE_REASONS =
     [''Transferred to skilled nursing facility'', ''Returned home with family'',
      ''Hospitalized - higher level of care needed'', ''Transferred to memory care facility'',
      ''Deceased'', ''Family relocation'', ''Transferred to another AFH'']"

text \<open>
  A client record, with the fields that the simulation of admissions and discharges
  and the later phases read or write. The descriptive fields (names, date of birth,
  gender, physician, emergency contact, allergies, diagnoses, medications) come from
  the name generator and the reference tables; no code modelled here reads them, and
  they and their random draws are left out. \<open>admissionDate\<close> and \<open>dischargeDate\<close> are
  dates, \<open>createdAt\<close> is a datetime; an absent \<open>dischargeDate\<close> key is \<open>None\<close>.
\<close>

record client =
  cl_id :: uuid
  cl_admissionDate :: date
  cl_homeId :: uuid
  cl_bedId :: uuid
  cl_isActive :: bool
  cl_createdAt :: datetime
  cl_createdById :: uuid
  cl_dischargeDate :: "date option"
  cl_dischargeReason :: "string option"

text \<open>
  \<open>ClientGenerator.generate\<close>. \<open>if discharged and discharge_date\<close>: a datetime is always
  true, so the test is that a discharge date is given.
\<close>

definition client_generate ::
  "uuid \<Rightarrow> uuid \<Rightarrow> datetime \<Rightarrow> uuid \<Rightarrow> bool \<Rightarrow> datetime option \<Rightarrow> rng \<Rightarrow> client \<times> rng" where
  "client_generate home_id bed_id admission_date caregiver_id discharged discharge_date w =
     (let (cid, w) = uuid4 w;
          client =
            \<lparr>cl_id = cid, cl_admissionDate = date_of admission_date, cl_homeId = home_id,
             cl_bedId = bed_id, cl_isActive = (\<not> discharged), cl_createdAt = admission_date,
             cl_createdById = caregiver_id, cl_dischargeDate = None,
             cl_dischargeReason = None\<rparr>
      in case discharge_date of
           None \<Rightarrow> (client, w)
         | Some d \<Rightarrow>
             if discharged
             then (let (reason, w) = choice DISCHARGE_REASONS w
                   in (client\<lparr>cl_dischargeDate := Some (date_of d),
                         cl_dischargeReason := Some reason, cl_isActive := False\<rparr>, w))
             else (client, w))"

text \<open>
  The occupancy ledger of one home, \<open>bed_occupancy\<close>: a dictionary from the bed to its
  list of intervals \<open>(start, end, client_id)\<close>, in the order of the beds; \<open>end\<close> is \<open>None\<close>
  while the interval is open. \<open>dict_keys\<close> gives the keys of a dictionary built from a
  list of keys: the first occurrences, in order.
\<close>

type_synonym interval = "datetime \<times> datetime option \<times> uuid"
type_synonym ledger = "(uuid \<times> interval list) list"

fun dict_keys :: "'a list \<Rightarrow> 'a list" where
  "dict_keys [] = []"
| "dict_keys (x # xs) = x # dict_keys (filter (\<lambda>y. y \<noteq> x) xs)"

definition new_ledger :: "uuid list \<Rightarrow> ledger" where
  "new_ledger home_beds = map (\<lambda>b. (b, [])) (dict_keys home_beds)"

text \<open>\<open>start <= date <= (end or END_DATE)\<close>\<close>

definition covers :: "datetime \<Rightarrow> datetime \<Rightarrow> interval \<Rightarrow> bool" where
  "covers END_DATE date iv =
     (case iv of (start, end, client_id) \<Rightarrow>
        start \<le> date \<and> date \<le> (case end of None \<Rightarrow> END_DATE | Some e \<Rightarrow> e))"

fun find_available_bed :: "datetime \<Rightarrow> ledger \<Rightarrow> datetime \<Rightarrow> uuid option" where
  "find_available_bed END_DATE [] date = None"
| "find_available_bed END_DATE ((bed_id, occupancy) # rest) date =
     (if list_ex (covers END_DATE date) occupancy
      then find_available_bed END_DATE rest date
      else Some bed_id)"

text \<open>\<open>bed_occupancy[bed_id].append(iv)\<close>\<close>

definition ledger_append :: "ledger \<Rightarrow> uuid \<Rightarrow> interval \<Rightarrow> ledger" where
  "ledger_append led bed_id iv =
     map (\<lambda>(b, occupancy). if b = bed_id then (b, occupancy @ [iv]) else (b, occupancy)) led"

text \<open>
  The state that phase 3 changes while it works on one home: the list \<open>clients\<close> of all
  clients so far (of all homes), the ledger of the home, and the random streams.
\<close>

record sim =
  clients :: "client list"
  bed_occupancy :: ledger
  rnd :: rng

text \<open>One round of the loop \<open>for _ in range(initial_clients)\<close>.\<close>

definition admit_initial :: "datetime \<Rightarrow> uuid \<Rightarrow> datetime \<Rightarrow> uuid list \<Rightarrow> sim \<Rightarrow> sim" where
  "admit_initial END_DATE home_id home_open home_caregivers st =
     (let (offset, w) = randint 0 30 (rnd st);
          admit_date = home_open + days offset
      in case find_available_bed END_DATE (bed_occupancy st) admit_date of
           None \<Rightarrow> st\<lparr>rnd := w\<rparr>
         | Some bed_id \<Rightarrow>
             (let (caregiver, w) = choice home_caregivers w;
                  (client, w) = client_generate home_id bed_id admit_date caregiver False None w
              in \<lparr>clients = clients st @ [client],
                  bed_occupancy =
                    ledger_append (bed_occupancy st) bed_id (admit_date, None, cl_id client),
                  rnd = w\<rparr>))"

definition occupied_beds :: "datetime \<Rightarrow> ledger \<Rightarrow> datetime \<Rightarrow> nat" where
  "occupied_beds END_DATE led date =
     length (filter (\<lambda>(b, occupancy). list_ex (covers END_DATE date) occupancy) led)"

text \<open>
  The admission part of one round of the loop \<open>while current_date < END_DATE\<close>. The
  thresholds of the comparisons with \<open>random.random()\<close> are the decimal fractions of the
  source; \<open>and\<close> draws its second operand only when the first is true.
\<close>

definition admit_gradual ::
  "datetime \<Rightarrow> uuid \<Rightarrow> uuid list \<Rightarrow> uuid list \<Rightarrow> datetime \<Rightarrow> sim \<Rightarrow> sim" where
  "admit_gradual END_DATE home_id home_beds home_caregivers current_date st =
     (if occupied_beds END_DATE (bed_occupancy st) current_date < length home_beds
      then
        (let (u, w) = random_unit (rnd st) in
         if u > 7 / 10
         then
           (case find_available_bed END_DATE (bed_occupancy st) current_date of
              None \<Rightarrow> st\<lparr>rnd := w\<rparr>
            | Some bed_id \<Rightarrow>
                (let (caregiver, w) = choice home_caregivers w;
                     (stay_duration, w) = randint 60 700 w;
                     discharge_date = current_date + days stay_duration;
                     (is_discharged, w) =
                       (if discharge_date < END_DATE
                        then (let (u, w) = random_unit w in (u > 6 / 10, w))
                        else (False, w));
                     (client, w) =
                       client_generate home_id bed_id current_date caregiver is_discharged
                         (if is_discharged then Some discharge_date else None) w;
                     end_date = (if is_discharged then Some discharge_date else None)
                 in \<lparr>clients = clients st @ [client],
                     bed_occupancy =
                       ledger_append (bed_occupancy st) bed_id
                         (current_date, end_date, cl_id client),
                     rnd = w\<rparr>))
         else st\<lparr>rnd := w\<rparr>)
      else st)"

text \<open>
  The loop \<open>for c in clients: if c["id"] == client_id: ...; break\<close> of a discharge by
  hazard: the first client with the identifier is changed.
\<close>

fun discharge_client :: "datetime \<Rightarrow> uuid \<Rightarrow> client list \<Rightarrow> rng \<Rightarrow> client list \<times> rng" where
  "discharge_client current_date client_id [] w = ([], w)"
| "discharge_client current_date client_id (c # cs) w =
     (if cl_id c = client_id
      then (let (reason, w) =
                  choice [''Transferred to skilled nursing facility'',
                          ''Returned home with family'', ''Transferred to another AFH''] w
            in (c\<lparr>cl_dischargeDate := Some (date_of current_date),
                  cl_dischargeReason := Some reason, cl_isActive := False\<rparr> # cs, w))
      else (let (cs, w) = discharge_client current_date client_id cs w in (c # cs, w)))"

text \<open>
  The loop over \<open>enumerate(occupancy)\<close> of one bed; \<open>occupancy[i] = \<dots>\<close> replaces the
  entry just read.
\<close>

fun hazard_occupancy ::
  "datetime \<Rightarrow> interval list \<Rightarrow> client list \<Rightarrow> rng \<Rightarrow> interval list \<times> client list \<times> rng" where
  "hazard_occupancy current_date [] cls w = ([], cls, w)"
| "hazard_occupancy current_date ((start, end, client_id) # occupancy) cls w =
     (if end = None \<and> days_between current_date start > 180
      then
        (let (u, w) = random_unit w in
         if u > 98 / 100
         then
           (let (cls, w) = discharge_client current_date client_id cls w;
                (occupancy, cls, w) = hazard_occupancy current_date occupancy cls w
            in ((start, Some current_date, client_id) # occupancy, cls, w))
         else
           (let (occupancy, cls, w) = hazard_occupancy current_date occupancy cls w
            in ((start, end, client_id) # occupancy, cls, w)))
      else
        (let (occupancy, cls, w) = hazard_occupancy current_date occupancy cls w
         in ((start, end, client_id) # occupancy, cls, w)))"

text \<open>The loop over \<open>bed_occupancy.items()\<close>.\<close>

fun hazard_beds ::
  "datetime \<Rightarrow> ledger \<Rightarrow> client list \<Rightarrow> rng \<Rightarrow> ledger \<times> client list \<times> rng" where
  "hazard_beds current_date [] cls w = ([], cls, w)"
| "hazard_beds current_date ((bed_id, occupancy) # rest) cls w =
     (let (occupancy, cls, w) = hazard_occupancy current_date occupancy cls w;
          (rest, cls, w) = hazard_beds current_date rest cls w
      in ((bed_id, occupancy) # rest, cls, w))"

definition hazard_discharges :: "datetime \<Rightarrow> sim \<Rightarrow> sim" where
  "hazard_discharges current_date st =
     (let (led, cls, w) = hazard_beds current_date (bed_occupancy st) (clients st) (rnd st)
      in \<lparr>clients = cls, bed_occupancy = led, rnd = w\<rparr>)"

text \<open>
  The loop \<open>while current_date < END_DATE\<close>. Every round moves \<open>current_date\<close> forward
  by 7 to 21 days, so the loop ends.
\<close>

function fill_loop ::
  "datetime \<Rightarrow> uuid \<Rightarrow> uuid list \<Rightarrow> uuid list \<Rightarrow> datetime \<Rightarrow> sim \<Rightarrow> sim" where
  "fill_loop END_DATE home_id home_beds home_caregivers current_date st =
     (if current_date < END_DATE
      then
        (let st = admit_gradual END_DATE home_id home_beds home_caregivers current_date st;
             st = hazard_discharges current_date st;
             (step, w) = randint 7 21 (rnd st)
         in fill_loop END_DATE home_id home_beds home_caregivers (current_date + days step)
              (st\<lparr>rnd := w\<rparr>))
      else st)"
  by pat_completeness auto
termination
proof (relation "measure (\<lambda>(END_DATE, home_id, home_beds, home_caregivers, current_date, st).
                            nat (END_DATE - current_date))")
  show "wf (measure (\<lambda>(END_DATE, home_id, home_beds, home_caregivers, current_date, st).
                            nat (END_DATE - current_date)))"
    by simp
next
  fix END_DATE :: datetime and home_id :: uuid and home_beds home_caregivers :: "uuid list"
    and current_date :: datetime and st x xa :: sim and xb :: "int \<times> rng" and step :: int and w :: rng
  assume a: "current_date < END_DATE" and xa: "xb = randint 7 21 (rnd xa)" and xb: "(step, w) = xb"
  have "0 \<le> fst (next_raw (rnd xa)) mod 15" by simp
  then have "7 \<le> step" using xa xb by (simp add: randint_def split: prod.splits)
  then have "0 < days step" by (simp add: days_def usec_per_day_def)
  then show "((END_DATE, home_id, home_beds, home_caregivers, current_date + days step, xa\<lparr>rnd := w\<rparr>),
         (END_DATE, home_id, home_beds, home_caregivers, current_date, st))
        \<in> measure (\<lambda>(END_DATE, home_id, home_beds, home_caregivers, current_date, st).
                            nat (END_DATE - current_date))"
    using a by simp
qed

declare fill_loop.simps [simp del]

text \<open>
  The body of \<open>for home in homes\<close> in phase 3, for one home: the number of initial
  clients, a new ledger, the initial admissions, and the gradual fill from the 45th day
  after the opening.
\<close>

definition phase3_home ::
  "datetime \<Rightarrow> uuid \<Rightarrow> datetime \<Rightarrow> uuid list \<Rightarrow> uuid list \<Rightarrow> client list \<Rightarrow> rng \<Rightarrow> sim" where
  "phase3_home END_DATE home_id home_open home_beds home_caregivers cls w =
     (let (initial_clients, w) = randint 1 2 w;
          st = \<lparr>clients = cls, bed_occupancy = new_ledger home_beds, rnd = w\<rparr>;
          st = ((admit_initial END_DATE home_id home_open home_caregivers) ^^ nat initial_clients) st
      in fill_loop END_DATE home_id home_beds home_caregivers (home_open + days 45) st)"

text \<open>
  Phase 3 over all homes. A home is given by its identifier, its opening time, the
  identifiers of its beds and those of its caregivers. The source keeps the ledger of a
  home only while it works on that home; here the ledgers are returned next to the
  clients, so that properties relating the two can be stated.
\<close>

type_synonym home_input = "uuid \<times> datetime \<times> uuid list \<times> uuid list"

fun phase3 ::
  "datetime \<Rightarrow> home_input list \<Rightarrow> client list \<Rightarrow> rng
     \<Rightarrow> client list \<times> (uuid \<times> ledger) list \<times> rng" where
  "phase3 END_DATE [] cls w = (cls, [], w)"
| "phase3 END_DATE ((home_id, home_open, home_beds, home_caregivers) # homes) cls w =
     (let st = phase3_home END_DATE home_id home_open home_beds home_caregivers cls w;
          (cls, ledgers, w) = phase3 END_DATE homes (clients st) (rnd st)
      in (cls, (home_id, bed_occupancy st) # ledgers, w))"

text \<open>
  Notions for stating how clients and ledgers agree. \<open>entry_client\<close> is the client of an
  interval, \<open>entries_of\<close> lists the intervals of a ledger, \<open>client_key\<close> is what ties a
  client to its interval: its identifier, home and bed. A client and the end of its
  interval are \<open>consistent\<close> when the client is active exactly if the interval is open and
  exactly if it has no discharge date, and a closed interval ends on the discharge date.
  \<open>ledger_inv\<close> says that the intervals belong to different clients of the list, and
  that every client is consistent with its interval.
\<close>

definition entry_client :: "interval \<Rightarrow> uuid" where
  "entry_client iv = snd (snd iv)"

definition entries_of :: "ledger \<Rightarrow> interval list" where
  "entries_of led = concat (map snd led)"

definition client_key :: "client \<Rightarrow> uuid \<times> uuid \<times> uuid" where
  "client_key c = (cl_id c, cl_homeId c, cl_bedId c)"

definition consistent :: "client \<Rightarrow> datetime option \<Rightarrow> bool" where
  "consistent c e =
     ((cl_isActive c \<longleftrightarrow> e = None) \<and> (cl_isActive c \<longleftrightarrow> cl_dischargeDate c = None)
      \<and> (case e of None \<Rightarrow> True | Some d \<Rightarrow> cl_dischargeDate c = Some (date_of d)))"

definition ledger_inv :: "client list \<Rightarrow> interval list \<Rightarrow> bool" where
  "ledger_inv cls E =
     (distinct (map entry_client E) \<and> set (map entry_client E) \<subseteq> cl_id ` set cls
      \<and> list_all (\<lambda>c. cl_isActive c \<longleftrightarrow> cl_dischargeDate c = None) cls
      \<and> list_all (\<lambda>iv. list_all (\<lambda>c. cl_id c \<noteq> entry_client iv \<or> consistent c (fst (snd iv))) cls) E)"

text \<open>
  A client \<open>has_entry\<close> in a ledger when the list of its bed holds an interval of the
  client. \<open>home_inv\<close> is what holds while phase 3 works on a home, for the clients
  \<open>cls0\<close> and the intervals \<open>X\<close> of the homes before it: clients and intervals agree,
  the beds of the ledger are different keys, the clients of earlier homes keep their
  place and their keys, and every client added since belongs to the home and has its
  interval in the ledger.
\<close>

definition has_entry :: "ledger \<Rightarrow> client \<Rightarrow> bool" where
  "has_entry led c =
     list_ex (\<lambda>(b, occupancy). b = cl_bedId c \<and> list_ex (\<lambda>iv. entry_client iv = cl_id c) occupancy) led"

definition home_inv :: "client list \<Rightarrow> interval list \<Rightarrow> uuid \<Rightarrow> sim \<Rightarrow> bool" where
  "home_inv cls0 X home_id st =
     (ledger_inv (clients st) (X @ entries_of (bed_occupancy st))
      \<and> distinct (map fst (bed_occupancy st))
      \<and> map client_key (take (length cls0) (clients st)) = map client_key cls0
      \<and> length cls0 \<le> length (clients st)
      \<and> list_all (\<lambda>c. cl_homeId c = home_id \<and> has_entry (bed_occupancy st) c)
            (drop (length cls0) (clients st)))"

section \<open>Activities (\<open>ActivityGenerator.generate\<close>; generate.py, phase 5)\<close>

text \<open>The table \<open>ACTIVITIES\<close>: name, category, and whether it is a group activity.\<close>

definition ACTIVITIES :: "(string \<times> string \<times> bool) list" where
  "ACTIVITIES =
     [(''Bingo Night'', ''Recreational'', True), (''Movie Afternoon'', ''Recreational'', True),
      (''Music Therapy Session'', ''Recreational'', True),
      (''Arts and Crafts'', ''Recreational'', True), (''Puzzle Time'', ''Recreational'', False),
      (''Reading Time'', ''Recreational'', False), (''Card Games'', ''Social'', True),
      (''Family Visit'', ''Social'', False), (''Birthday Celebration'', ''Social'', True),
      (''Holiday Party'', ''Social'', True), (''Group Exercise Class'', ''Exercise'', True),
      (''Walking Program'', ''Exercise'', False), (''Chair Yoga'', ''Exercise'', True),
      (''Balance Exercises'', ''Exercise'', False), (''Pet Therapy Visit'', ''Other'', True),
      (''Garden Activity'', ''Other'', True), (''Cooking Class'', ''Other'', True),
      (''Religious Service'', ''Other'', True)]"

text \<open>
  \<open>t.replace(hour=h, minute=m)\<close> keeps the seconds and microseconds of \<open>t\<close>;
  \<open>t.strftime("%H:%M")\<close> is kept as the pair of the hour and the minute of \<open>t\<close>.
\<close>

definition replace_hour_minute :: "datetime \<Rightarrow> int \<Rightarrow> int \<Rightarrow> datetime" where
  "replace_hour_minute t h m = midnight (date_of t) + hours h + minutes m + t mod 60000000"

definition hour_minute :: "datetime \<Rightarrow> int \<times> int" where
  "hour_minute t =
     ((t mod usec_per_day) div 3600000000, ((t mod usec_per_day) mod 3600000000) div 60000000)"

record activity =
  act_id :: uuid
  act_homeId :: uuid
  act_activityName :: string
  act_description :: string
  act_date :: date
  act_startTime :: "int \<times> int"
  act_endTime :: "int \<times> int"
  act_duration :: int
  act_category :: string
  act_isGroupActivity :: bool
  act_createdById :: uuid
  act_createdAt :: datetime
  act_updatedAt :: "datetime option"

record participation =
  par_id :: uuid
  par_activityId :: uuid
  par_clientId :: uuid
  par_createdAt :: datetime

text \<open>The list comprehension that builds the participant records.\<close>

fun participant_records :: "uuid \<Rightarrow> datetime \<Rightarrow> uuid list \<Rightarrow> rng \<Rightarrow> participation list \<times> rng" where
  "participant_records activity_id created_at [] w = ([], w)"
| "participant_records activity_id created_at (cid # cids) w =
     (let (pid, w) = uuid4 w;
          (ps, w) = participant_records activity_id created_at cids w
      in (\<lparr>par_id = pid, par_activityId = activity_id, par_clientId = cid,
           par_createdAt = created_at\<rparr> # ps, w))"

text \<open>
  \<open>ActivityGenerator.generate\<close>; the result is the activity and its \<open>participants\<close>
  entry.
\<close>

definition activity_generate ::
  "uuid \<Rightarrow> uuid \<Rightarrow> datetime \<Rightarrow> uuid list \<Rightarrow> rng \<Rightarrow> (activity \<times> participation list) \<times> rng" where
  "activity_generate home_id caregiver_id activity_date client_ids w =
     (let ((name, category, group), w) = choice ACTIVITIES w;
          (participants, w) =
            (if group
             then (let (k, w) = randint 2 6 w;
                       num_participants = min (length client_ids) (nat k)
                   in sample client_ids num_participants w)
             else (let (c, w) = choice client_ids w in ([c], w)));
          (start_hour, w) = randint 9 16 w;
          (duration_minutes, w) = choice [30, 45, 60, 90] w;
          start_time = replace_hour_minute activity_date start_hour 0;
          end_time = start_time + minutes duration_minutes;
          (activity_id, w) = uuid4 w;
          created_at = activity_date;
          activity =
            \<lparr>act_id = activity_id, act_homeId = home_id, act_activityName = name,
             act_description = name @ '' activity session'',
             act_date = date_of activity_date, act_startTime = hour_minute start_time,
             act_endTime = hour_minute end_time, act_duration = duration_minutes,
             act_category = category, act_isGroupActivity = group,
             act_createdById = caregiver_id, act_createdAt = created_at,
             act_updatedAt = None\<rparr>;
          (ps, w) = participant_records activity_id created_at participants w
      in ((activity, ps), w))"

text \<open>
  The clients of a home that count as active on a date in phases 5 and 6:
  \<open>clients_by_home[home_id]\<close> holds the clients that were created for the home, in
  order; the dates are parsed to their midnights.
\<close>

definition clients_by_home :: "client list \<Rightarrow> uuid \<Rightarrow> client list" where
  "clients_by_home cls home_id = filter (\<lambda>c. cl_homeId c = home_id) cls"

definition active_client_ids :: "client list \<Rightarrow> uuid \<Rightarrow> datetime \<Rightarrow> uuid list" where
  "active_client_ids cls home_id current_date =
     map cl_id
       (filter
         (\<lambda>c. midnight (cl_admissionDate c) \<le> current_date
              \<and> (case cl_dischargeDate c of None \<Rightarrow> True | Some d \<Rightarrow> midnight d > current_date))
         (clients_by_home cls home_id))"

text \<open>The output of phase 5 so far, and the random streams.\<close>

record acts =
  activities :: "activity list"
  activityParticipants :: "participation list"
  arnd :: rng

text \<open>One round of \<open>for _ in range(activities_this_week)\<close>.\<close>

definition week_activity ::
  "datetime \<Rightarrow> uuid \<Rightarrow> uuid list \<Rightarrow> datetime \<Rightarrow> uuid list \<Rightarrow> acts \<Rightarrow> acts" where
  "week_activity END_DATE home_id home_caregivers current_date client_ids st =
     (let (offset, w) = randint 0 6 (arnd st);
          activity_date = current_date + days offset
      in if activity_date < END_DATE
         then (let (caregiver, w) = choice home_caregivers w;
                   ((activity, ps), w) =
                     activity_generate home_id caregiver activity_date client_ids w
               in \<lparr>activities = activities st @ [activity],
                   activityParticipants = activityParticipants st @ ps, arnd = w\<rparr>)
         else st\<lparr>arnd := w\<rparr>)"

text \<open>The loop \<open>while current_date < END_DATE\<close> of phase 5, which steps by a week.\<close>

function week_loop ::
  "datetime \<Rightarrow> client list \<Rightarrow> uuid \<Rightarrow> uuid list \<Rightarrow> datetime \<Rightarrow> acts \<Rightarrow> acts" where
  "week_loop END_DATE cls home_id home_caregivers current_date st =
     (if current_date < END_DATE
      then
        (let client_ids = active_client_ids cls home_id current_date;
             st = (if client_ids \<noteq> []
                   then (let (activities_this_week, w) = randint 2 5 (arnd st)
                         in ((week_activity END_DATE home_id home_caregivers current_date
                                client_ids) ^^ nat activities_this_week) (st\<lparr>arnd := w\<rparr>))
                   else st)
         in week_loop END_DATE cls home_id home_caregivers (current_date + days 7) st)
      else st)"
  by pat_completeness auto
termination
  by (relation "measure (\<lambda>(END_DATE, cls, home_id, home_caregivers, current_date, st).
                           nat (END_DATE - current_date))")
     (auto simp: days_def usec_per_day_def)

declare week_loop.simps [simp del]

text \<open>The body of \<open>for home in homes\<close> in phase 5.\<close>

definition phase5_home ::
  "datetime \<Rightarrow> client list \<Rightarrow> uuid \<Rightarrow> datetime \<Rightarrow> uuid list \<Rightarrow> acts \<Rightarrow> acts" where
  "phase5_home END_DATE cls home_id home_open home_caregivers st =
     week_loop END_DATE cls home_id home_caregivers (home_open + days 7) st"

section \<open>Properties of the checksum\<close>

lemma upper_alpha: "c \<in> set base36_chars \<Longrightarrow> upper_char c = c"
  by (auto simp: base36_chars_def upper_char_def)

lemma index_of_Some: "index_of xs x = Some i \<Longrightarrow> i < length xs \<and> xs ! i = x"
  by (induction xs arbitrary: i) (auto split: if_splits)

lemma index_of_mem: "x \<in> set xs \<Longrightarrow> \<exists>i. index_of xs x = Some i"
  by (induction xs) auto

lemma length_base36_chars: "length base36_chars = 36"
  by (simp add: base36_chars_def)


lemma index_alpha:
  assumes "c \<in> set base36_chars"
  obtains i where "index_of base36_chars (upper_char c) = Some i" "i < 36" "base36_chars ! i = c"
  using assms index_of_mem[of c base36_chars] index_of_Some[of base36_chars c]
  by (auto simp: upper_alpha length_base36_chars)







lemma luhn_loop_total:
  "set cs \<subseteq> set base36_chars \<Longrightarrow> \<exists>t. luhn_loop cs f s = Some t"
proof (induction cs arbitrary: f s)
  case Nil
  show ?case by simp
next
  case (Cons c cs)
  then have "c \<in> set base36_chars" by simp
  then obtain i where "index_of base36_chars (upper_char c) = Some i"
    by (rule index_alpha)
  then show ?case using Cons by (simp add: Let_def)
qed









lemma map_upper_alpha: "set p \<subseteq> set base36_chars \<Longrightarrow> map upper_char p = p"
  by (induction p) (simp_all add: upper_alpha)


section \<open>Properties of the base-36 fields\<close>

lemma to_base36_loop_set:
  "set (to_base36_loop v r) \<subseteq> set base36_chars \<union> set r"
proof (induction v r rule: to_base36_loop.induct)
  case (1 v r)
  show ?case
  proof (cases "v > 0")
    case True
    have "nat (v mod 36) < length base36_chars"
      by (simp add: length_base36_chars nat_less_iff)
    then have "base36_chars ! nat (v mod 36) \<in> set base36_chars" by simp
    then show ?thesis using 1[OF True] True
      by (subst to_base36_loop.simps) auto
  next
    case False
    then show ?thesis by (subst to_base36_loop.simps) simp
  qed
qed

lemma to_base36_loop_length:
  "v < 36 ^ k \<Longrightarrow> length (to_base36_loop v r) \<le> k + length r"
proof (induction v r arbitrary: k rule: to_base36_loop.induct)
  case (1 v r)
  show ?case
  proof (cases "v > 0")
    case True
    then obtain k' where k: "k = Suc k'" using 1(2) by (cases k) auto
    have "v div 36 < 36 ^ k'" using 1(2) k by (simp add: div_less_iff_less_mult mult.commute)
    then have "length (to_base36_loop (v div 36) (base36_chars ! nat (v mod 36) # r)) \<le> k' + Suc (length r)"
      using 1(1)[OF True, of k'] by simp
    then show ?thesis using True k by (subst to_base36_loop.simps) simp
  next
    case False
    then show ?thesis by (subst to_base36_loop.simps) simp
  qed
qed

lemma to_base36_set: "set (to_base36 v) \<subseteq> set base36_chars"
  using to_base36_loop_set[of v "[]"] by (auto simp: to_base36_def base36_chars_def)

lemma to_base36_length: "v < 36 ^ k \<Longrightarrow> 0 < k \<Longrightarrow> length (to_base36 v) \<le> k"
  using to_base36_loop_length[of v k "[]"] by (auto simp: to_base36_def)

lemma upper_alpha_string: "set s \<subseteq> set base36_chars \<Longrightarrow> upper s = s"
  unfolding upper_def by (induction s) (auto simp: upper_alpha)

lemma zero_alpha: "CHR ''0'' \<in> set base36_chars"
  by (simp add: base36_chars_def)

lemma zfill_alpha:
  assumes "set s \<subseteq> set base36_chars"
  shows "zfill w s = replicate (w - length s) (CHR ''0'') @ s"
proof (cases s)
  case Nil
  then show ?thesis by (simp add: zfill_def)
next
  case (Cons c cs)
  then have "c \<in> set base36_chars" using assms by simp
  then have "c \<noteq> CHR ''+''" "c \<noteq> CHR ''-''" by (auto simp: base36_chars_def)
  then show ?thesis using Cons by (simp add: zfill_def)
qed

lemma field_alpha:
  "set (upper (zfill w (to_base36 v))) \<subseteq> set base36_chars"
proof -
  have "set (zfill w (to_base36 v)) \<subseteq> set base36_chars"
    using to_base36_set[of v] zero_alpha by (auto simp: zfill_alpha)
  then show ?thesis by (simp add: upper_alpha_string)
qed

lemma field_length:
  assumes "v < 36 ^ w" "0 < w"
  shows "length (upper (zfill w (to_base36 v))) = w"
  using to_base36_length[OF assms] to_base36_set[of v]
  by (simp add: zfill_alpha upper_def)

lemma type_code_alpha:
  "length (get_incident_type_code ty) = 1 \<and> set (get_incident_type_code ty) \<subseteq> set base36_chars"
  by (simp add: get_incident_type_code_def type_map_def base36_chars_def)

section \<open>Properties of the random draws and of the incident number\<close>

lemma next_raw_cases:
  obtains r w' where "next_raw w = (r, w')"
  by (cases "next_raw w") auto

lemma randint_range:
  assumes "a \<le> b"
  shows "a \<le> fst (randint a b w) \<and> fst (randint a b w) \<le> b"
proof -
  obtain r w' where r: "next_raw w = (r, w')" by (rule next_raw_cases)
  have "0 < b - a + 1" using assms by simp
  then have "0 \<le> r mod (b - a + 1)" "r mod (b - a + 1) < b - a + 1"
    by (rule pos_mod_sign, rule pos_mod_bound)
  then show ?thesis by (simp add: randint_def r)
qed

lemma raw_index: "0 < n \<Longrightarrow> nat (r mod int n) < n"
  by (simp add: nat_less_iff)

lemma choice_mem: "xs \<noteq> [] \<Longrightarrow> fst (choice xs w) \<in> set xs"
  by (cases "next_raw w") (simp add: choice_def raw_index)

lemma weighted_choice_mem: "choices \<noteq> [] \<Longrightarrow> fst (weighted_choice choices w) \<in> fst ` set choices"
  using choice_mem[of "map fst choices" w] by (simp add: weighted_choice_def)

lemma payload_alpha:
  "set (get_incident_type_code ty @ ''IR'' @ upper (zfill 2 (to_base36 a)) @ upper (zfill 4 (to_base36 b)))
     \<subseteq> set base36_chars"
proof -
  have "CHR ''I'' \<in> set base36_chars" "CHR ''R'' \<in> set base36_chars"
    by (simp_all add: base36_chars_def)
  then show ?thesis using type_code_alpha[of ty] field_alpha[of 2 a] field_alpha[of 4 b]
    by simp
qed

lemma checksum_total:
  assumes "set p \<subseteq> set base36_chars"
  shows "\<exists>k. calculate_luhn_mod36_checksum p = Some k \<and> k \<in> set base36_chars"
proof -
  obtain t where t: "luhn_loop (rev p) 2 0 = Some t"
    using luhn_loop_total[of "rev p" 2 0] assms by auto
  have "(36 - t mod 36) mod 36 < length base36_chars" by (simp add: length_base36_chars)
  then have "base36_chars ! ((36 - t mod 36) mod 36) \<in> set base36_chars" by (rule nth_mem)
  then show ?thesis using t by (simp add: calculate_luhn_mod36_checksum_def Let_def)
qed

lemma generate_incident_number_Some:
  "\<exists>k. calculate_luhn_mod36_checksum
           (get_incident_type_code ty @ ''IR''
              @ upper (zfill 2 (to_base36 (case home_sequence_map g h of None \<Rightarrow> 1 | Some s \<Rightarrow> s)))
              @ upper (zfill 4 (to_base36 n))) = Some k
       \<and> generate_incident_number g h ty n =
           Some (get_incident_type_code ty @ ''IR''
              @ upper (zfill 2 (to_base36 (case home_sequence_map g h of None \<Rightarrow> 1 | Some s \<Rightarrow> s)))
              @ upper (zfill 4 (to_base36 n)) @ [k])"
proof -
  let ?p = "get_incident_type_code ty @ ''IR''
              @ upper (zfill 2 (to_base36 (case home_sequence_map g h of None \<Rightarrow> 1 | Some s \<Rightarrow> s)))
              @ upper (zfill 4 (to_base36 n))"
  obtain k where "calculate_luhn_mod36_checksum ?p = Some k"
    using checksum_total[OF payload_alpha] by blast
  then show ?thesis by (simp add: generate_incident_number_def Let_def)
qed

lemma generate_incident_number_shape:
  assumes "(case home_sequence_map g h of None \<Rightarrow> 1 | Some s \<Rightarrow> s) < 36 ^ 2"
    and "n < 36 ^ 4"
  obtains p k where "generate_incident_number g h ty n = Some (p @ [k])"
    "p = get_incident_type_code ty @ ''IR''
           @ upper (zfill 2 (to_base36 (case home_sequence_map g h of None \<Rightarrow> 1 | Some s \<Rightarrow> s)))
           @ upper (zfill 4 (to_base36 n))"
    "length p = 9" "set p \<subseteq> set base36_chars" "calculate_luhn_mod36_checksum p = Some k"
    "k \<in> set base36_chars"
proof -
  let ?hs = "case home_sequence_map g h of None \<Rightarrow> 1 | Some s \<Rightarrow> s"
  let ?p = "get_incident_type_code ty @ ''IR'' @ upper (zfill 2 (to_base36 ?hs))
              @ upper (zfill 4 (to_base36 n))"
  have a: "set ?p \<subseteq> set base36_chars" by (rule payload_alpha)
  obtain k where k: "calculate_luhn_mod36_checksum ?p = Some k" "k \<in> set base36_chars"
    using checksum_total[OF a] by blast
  have l: "length ?p = 9"
    using type_code_alpha[of ty] field_length[of ?hs 2] field_length[of n 4] assms by simp
  have "generate_incident_number g h ty n = Some (?p @ [k])"
    using k(1) by (simp add: generate_incident_number_def Let_def)
  then show ?thesis using that[of ?p k] a k l by simp
qed

section \<open>What \<open>IncidentGenerator.generate\<close> returns\<close>

lemma incident_generate_result:
  obtains inc g' w' wp where
    "incident_generate g h c r t hs adm w = Some (inc, g', w')"
    "incident_counter_by_home g' = (incident_counter_by_home g)(h \<mapsto> counter_after g h)"
    "home_sequence_map g' = sequence_after g h hs"
    "generate_incident_number g' h (inc_incidentType inc) (counter_after g h)
       = Some (inc_incidentNumber inc)"
    "inc_incidentType inc \<in> fst ` set INCIDENT_TYPES"
    "inc_status inc \<in> fst ` set status_weights"
    "inc_id inc = fst (uuid4 (snd (weighted_choice status_weights (snd (choice INCIDENT_LOCATIONS
        (snd (choice (case map_of severity_map (fst (weighted_choice INCIDENT_TYPES w)) of
           None \<Rightarrow> [2, 3] | Some l \<Rightarrow> l) (snd (weighted_choice INCIDENT_TYPES w)))))))))"
    "inc_homeId inc = h" "inc_clientId inc = c" "inc_reportedById inc = r"
    "inc_occurredAt inc = t" "inc_createdAt inc = t"
    "inc_photos inc = fst (generate_photos (inc_id inc) h r t wp)"
    "inc_status inc = ''Draft'' \<Longrightarrow>
       inc_updatedAt inc = None \<and> inc_closedAt inc = None \<and> inc_closureNotes inc = None
       \<and> inc_closedById inc = None"
    "inc_status inc \<noteq> ''Draft'' \<Longrightarrow> inc_status inc \<noteq> ''Closed'' \<Longrightarrow>
       (\<exists>k. 1 \<le> k \<and> k \<le> 24 \<and> inc_updatedAt inc = Some (t + hours k))
       \<and> inc_closedAt inc = None \<and> inc_closureNotes inc = None \<and> inc_closedById inc = None"
    "inc_status inc = ''Closed'' \<Longrightarrow>
       (\<exists>d. 1 \<le> d \<and> d \<le> 7 \<and> inc_closedAt inc = Some (t + days d))
       \<and> inc_updatedAt inc = inc_closedAt inc
       \<and> inc_closureNotes inc = Some ''Investigation complete. Preventive measures implemented.''
       \<and> (\<exists>u. inc_closedById inc = Some u
             \<and> (case adm of None \<Rightarrow> u = r | Some ids \<Rightarrow> if ids \<noteq> [] then u \<in> set ids else u = r))"
proof -
  let ?cnt = "counter_after g h"
  define g1 where "g1 = g\<lparr>incident_counter_by_home := (incident_counter_by_home g)(h \<mapsto> ?cnt)\<rparr>"
  define g2 where "g2 = g1\<lparr>home_sequence_map := sequence_after g h hs\<rparr>"
  obtain ty w1 where d1: "weighted_choice INCIDENT_TYPES w = (ty, w1)" by force
  obtain sev w2 where d2:
    "choice (case map_of severity_map ty of None \<Rightarrow> [2, 3] | Some l \<Rightarrow> l) w1 = (sev, w2)" by force
  obtain loc w3 where d3: "choice INCIDENT_LOCATIONS w2 = (loc, w3)" by force
  obtain st w4 where d4: "weighted_choice status_weights w3 = (st, w4)" by force
  obtain iid w5 where d5: "uuid4 w4 = (iid, w5)" by force
  obtain num where num: "generate_incident_number g2 h ty ?cnt = Some num"
    using generate_incident_number_Some[of ty g2 h ?cnt] by blast
  obtain desc w6 where d6: "generate_description ty loc w5 = (desc, w6)" by force
  obtain uo w7 where d7: "randint 1 24 w6 = (uo, w7)" by force
  define w7' where "w7' = (if st \<noteq> ''Draft'' then w7 else w6)"
  obtain cd w8 where d8: "randint 1 7 w7' = (cd, w8)" by force
  obtain cl w9 where d9: "choice (the adm) w8 = (cl, w9)" by force
  define closer where "closer = (case adm of None \<Rightarrow> r | Some ids \<Rightarrow> if ids \<noteq> [] then cl else r)"
  define w9' where "w9' = (case adm of None \<Rightarrow> w8 | Some ids \<Rightarrow> if ids \<noteq> [] then w9 else w8)"
  define wp where "wp = (if st = ''Closed'' then w9' else w7')"
  obtain phs w10 where d10: "generate_photos iid h r t wp = (phs, w10)" by force
  define base where "base =
     \<lparr>inc_id = iid, inc_incidentNumber = num, inc_clientId = c, inc_homeId = h,
      inc_incidentType = ty, inc_severity = sev, inc_status = st, inc_occurredAt = t,
      inc_location = loc, inc_description = desc, inc_actionsTaken = generate_actions ty,
      inc_reportedById = r, inc_createdAt = t, inc_updatedAt = None, inc_closedAt = None,
      inc_closureNotes = None, inc_closedById = None, inc_photos = []\<rparr>"
  define inc where "inc =
     (if st = ''Draft'' then base\<lparr>inc_photos := phs\<rparr>
      else if st = ''Closed'' then
        base\<lparr>inc_updatedAt := Some (t + days cd), inc_closedAt := Some (t + days cd),
          inc_closureNotes := Some ''Investigation complete. Preventive measures implemented.'',
          inc_closedById := Some closer, inc_photos := phs\<rparr>
      else base\<lparr>inc_updatedAt := Some (t + hours uo), inc_photos := phs\<rparr>)"
  have g2_alt: "(case hs of None \<Rightarrow> g1
       | Some s \<Rightarrow> if home_sequence_map g1 h = None
                   then g1\<lparr>home_sequence_map := (home_sequence_map g1)(h \<mapsto> s)\<rparr> else g1) = g2"
    by (cases hs) (simp_all add: g2_def g1_def sequence_after_def)
  have res: "incident_generate g h c r t hs adm w = Some (inc, g2, w10)"
    unfolding incident_generate_def
    apply (simp only: Let_def counter_after_def[symmetric] g1_def[symmetric] g2_alt)
    apply (simp only: d1 d2 d3 d4 d5 num d6 prod.case option.case)
    using d7 d8 d9 d10 unfolding w7'_def wp_def w9'_def closer_def inc_def base_def
    apply (cases "st = ''Draft''")
     apply simp
    apply (cases "st = ''Closed''")
     apply (cases adm)
      apply simp
    subgoal for a by (cases "a = []") simp_all
    apply simp
    done
  have ty: "ty \<in> fst ` set INCIDENT_TYPES"
    using weighted_choice_mem[of INCIDENT_TYPES w] d1 by (simp add: INCIDENT_TYPES_def)
  have st: "st \<in> fst ` set status_weights"
    using weighted_choice_mem[of status_weights w3] d4 by (simp add: status_weights_def)
  have uo: "1 \<le> uo \<and> uo \<le> 24" using randint_range[of 1 24 w6] d7 by simp
  have cd: "1 \<le> cd \<and> cd \<le> 7" using randint_range[of 1 7 w7'] d8 by simp
  have cl: "case adm of None \<Rightarrow> closer = r | Some ids \<Rightarrow> if ids \<noteq> [] then closer \<in> set ids else closer = r"
    using choice_mem[of "the adm" w8] d9 by (auto simp: closer_def split: option.splits)
  have f: "inc_id inc = iid" "inc_incidentNumber inc = num" "inc_incidentType inc = ty"
    "inc_status inc = st" "inc_homeId inc = h" "inc_clientId inc = c" "inc_reportedById inc = r"
    "inc_occurredAt inc = t" "inc_createdAt inc = t" "inc_photos inc = phs"
    by (simp_all add: inc_def base_def)
  show ?thesis
  proof (rule that[of inc g2 w10 wp])
    show "incident_generate g h c r t hs adm w = Some (inc, g2, w10)" by (rule res)
    show "incident_counter_by_home g2 = (incident_counter_by_home g)(h \<mapsto> counter_after g h)"
      by (simp add: g2_def g1_def)
    show "home_sequence_map g2 = sequence_after g h hs" by (simp add: g2_def)
    show "generate_incident_number g2 h (inc_incidentType inc) (counter_after g h)
       = Some (inc_incidentNumber inc)" using num f by simp
    show "inc_incidentType inc \<in> fst ` set INCIDENT_TYPES" using ty f by simp
    show "inc_status inc \<in> fst ` set status_weights" using st f by simp
    show "inc_id inc = fst (uuid4 (snd (weighted_choice status_weights (snd (choice INCIDENT_LOCATIONS
        (snd (choice (case map_of severity_map (fst (weighted_choice INCIDENT_TYPES w)) of
           None \<Rightarrow> [2, 3] | Some l \<Rightarrow> l) (snd (weighted_choice INCIDENT_TYPES w)))))))))"
      using f d1 d2 d3 d4 d5 by simp
    show "inc_homeId inc = h" "inc_clientId inc = c" "inc_reportedById inc = r"
      "inc_occurredAt inc = t" "inc_createdAt inc = t" using f by simp_all
    show "inc_photos inc = fst (generate_photos (inc_id inc) h r t wp)" using f d10 by simp
    show "inc_updatedAt inc = None \<and> inc_closedAt inc = None \<and> inc_closureNotes inc = None
       \<and> inc_closedById inc = None" if "inc_status inc = ''Draft''"
      using that f by (simp add: inc_def base_def)
    show "(\<exists>k. 1 \<le> k \<and> k \<le> 24 \<and> inc_updatedAt inc = Some (t + hours k))
       \<and> inc_closedAt inc = None \<and> inc_closureNotes inc = None \<and> inc_closedById inc = None"
      if "inc_status inc \<noteq> ''Draft''" "inc_status inc \<noteq> ''Closed''"
      using that f uo by (auto simp: inc_def base_def)
    show "(\<exists>d. 1 \<le> d \<and> d \<le> 7 \<and> inc_closedAt inc = Some (t + days d))
       \<and> inc_updatedAt inc = inc_closedAt inc
       \<and> inc_closureNotes inc = Some ''Investigation complete. Preventive measures implemented.''
       \<and> (\<exists>u. inc_closedById inc = Some u
             \<and> (case adm of None \<Rightarrow> u = r | Some ids \<Rightarrow> if ids \<noteq> [] then u \<in> set ids else u = r))"
      if "inc_status inc = ''Closed''"
      using that f cd cl by (auto simp: inc_def base_def)
  qed
qed

section \<open>Properties of the photo attachments\<close>

lemma sample_props:
  "distinct pop \<Longrightarrow> k \<le> length pop \<Longrightarrow>
     length (fst (sample pop k w)) = k \<and> distinct (fst (sample pop k w))
     \<and> set (fst (sample pop k w)) \<subseteq> set pop"
proof (induction pop k w rule: sample.induct)
  case (1 pop w)
  show ?case by simp
next
  case (2 pop k w)
  then have ne: "pop \<noteq> []" by auto
  obtain r w1 where r: "next_raw w = (r, w1)" by force
  let ?j = "nat (r mod int (length pop))"
  let ?rest = "take ?j pop @ drop (Suc ?j) pop"
  have j: "?j < length pop" using ne by (simp add: raw_index)
  obtain xs w2 where s: "sample ?rest k w1 = (xs, w2)" by force
  define a b x where "a = take ?j pop" and "b = drop (Suc ?j) pop" and "x = pop ! ?j"
  have pop_eq: "pop = a @ x # b" unfolding a_def b_def x_def using j by (rule id_take_nth_drop)
  have "distinct (a @ x # b)" using 2(2) pop_eq by simp
  then have dab: "distinct (a @ b)" and xab: "x \<notin> set (a @ b)" by auto
  have sab: "set (a @ b) \<subseteq> set pop" by (subst pop_eq) auto
  have lab: "Suc (length (a @ b)) = length pop" by (subst pop_eq) simp
  have dr: "distinct ?rest" using dab by (simp add: a_def b_def)
  have lr: "k \<le> length ?rest" using 2(3) lab by (simp add: a_def b_def)
  have ih: "length xs = k \<and> distinct xs \<and> set xs \<subseteq> set ?rest"
    using 2(1)[OF ne r[symmetric] refl refl dr lr] s by simp
  have notin: "pop ! ?j \<notin> set ?rest" using xab by (simp add: a_def b_def x_def)
  have sub: "set ?rest \<subseteq> set pop" using sab by (simp add: a_def b_def)
  have "fst (sample pop (Suc k) w) = pop ! ?j # xs"
    using ne r s by (simp add: Let_def)
  then show ?case using ih notin sub j by auto
qed

lemma photos_loop_props:
  "length (fst (photos_loop i imgs iid h u t w)) = length imgs
   \<and> map ph_displayOrder (fst (photos_loop i imgs iid h u t w)) = [i ..< i + length imgs]
   \<and> map ph_sourceFile (fst (photos_loop i imgs iid h u t w)) = imgs
   \<and> map ph_fileName (fst (photos_loop i imgs iid h u t w)) = imgs"
proof (induction imgs arbitrary: i w)
  case Nil
  show ?case by simp
next
  case (Cons img imgs)
  obtain pid w1 where 1: "uuid4 w = (pid, w1)" by force
  obtain sz w2 where 2: "randint 50000 500000 w1 = (sz, w2)" by force
  obtain cap w3 where 3: "choice captions w2 = (cap, w3)" by force
  obtain ps w4 where 4: "photos_loop (Suc i) imgs iid h u t w3 = (ps, w4)" by force
  have ih: "length ps = length imgs \<and> map ph_displayOrder ps = [Suc i ..< Suc i + length imgs]
     \<and> map ph_sourceFile ps = imgs \<and> map ph_fileName ps = imgs"
    using Cons.IH[of "Suc i" w3] 4 by simp
  have "i < i + length (img # imgs)" by simp
  then have "[i ..< i + length (img # imgs)] = i # [Suc i ..< i + length (img # imgs)]"
    by (rule upt_conv_Cons)
  then have "[i ..< i + length (img # imgs)] = i # [Suc i ..< Suc i + length imgs]"
    by simp
  then show ?case using ih by (simp add: 1 2 3 4 Let_def)
qed

lemma generate_photos_props:
  "1 \<le> length (fst (generate_photos iid h u t w))
   \<and> length (fst (generate_photos iid h u t w)) \<le> 3
   \<and> map ph_displayOrder (fst (generate_photos iid h u t w))
        = [0 ..< length (fst (generate_photos iid h u t w))]
   \<and> distinct (map ph_sourceFile (fst (generate_photos iid h u t w)))
   \<and> set (map ph_sourceFile (fst (generate_photos iid h u t w))) \<subseteq> set INCIDENT_IMAGES
   \<and> map ph_fileName (fst (generate_photos iid h u t w))
        = map ph_sourceFile (fst (generate_photos iid h u t w))"
proof -
  obtain n w1 where 1: "randint 1 3 w = (n, w1)" by force
  have n: "1 \<le> n \<and> n \<le> 3" using randint_range[of 1 3 w] 1 by simp
  let ?k = "min (nat n) (length INCIDENT_IMAGES)"
  have len7: "length INCIDENT_IMAGES = 7" by (simp add: INCIDENT_IMAGES_def)
  have k: "?k = nat n" "1 \<le> nat n" "nat n \<le> 3" unfolding len7 using n by linarith+
  obtain sel w2 where 2: "sample INCIDENT_IMAGES ?k w1 = (sel, w2)" by force
  have d: "distinct INCIDENT_IMAGES" by (simp add: INCIDENT_IMAGES_def)
  have "?k \<le> length INCIDENT_IMAGES" by simp
  from sample_props[OF d this, of w1]
  have sel: "length sel = nat n" "distinct sel" "set sel \<subseteq> set INCIDENT_IMAGES"
    using 2 k(1) by simp_all
  have g: "generate_photos iid h u t w = photos_loop 0 sel iid h u t w2"
    by (simp add: generate_photos_def 1 2)
  show ?thesis unfolding g using photos_loop_props[of 0 sel iid h u t w2] sel k by simp
qed

section \<open>The order of the base-36 fields\<close>

lemma base36_chars_increasing:
  assumes "i < j" "j < 36"
  shows "(of_char (base36_chars ! i) :: nat) < of_char (base36_chars ! j)"
proof -
  have "sorted_wrt (\<lambda>x y. (of_char x :: nat) < of_char y) base36_chars"
    by (simp add: base36_chars_def)
  then have "\<forall>i j. i < j \<longrightarrow> j < length base36_chars \<longrightarrow>
      (of_char (base36_chars ! i) :: nat) < of_char (base36_chars ! j)"
    by (simp only: sorted_wrt_iff_nth_less)
  then show ?thesis using assms by (simp add: length_base36_chars)
qed

lemma to_base36_loop_acc: "to_base36_loop v r = to_base36_loop v [] @ r"
proof (induction "nat v" arbitrary: v r rule: less_induct)
  case less
  show ?case
  proof (cases "v > 0")
    case True
    let ?c = "base36_chars ! nat (v mod 36)"
    have lt: "nat (v div 36) < nat v" using True by simp
    have "to_base36_loop v r = to_base36_loop (v div 36) (?c # r)"
      using True by (subst to_base36_loop.simps) simp
    also have "\<dots> = to_base36_loop (v div 36) [] @ (?c # r)"
      by (rule less[OF lt])
    also have "\<dots> = (to_base36_loop (v div 36) [] @ [?c]) @ r" by simp
    also have "to_base36_loop (v div 36) [] @ [?c] = to_base36_loop (v div 36) [?c]"
      by (rule less[OF lt, symmetric])
    also have "to_base36_loop (v div 36) [?c] = to_base36_loop v []"
      using True by (subst (2) to_base36_loop.simps) simp
    finally show ?thesis .
  next
    case False
    then show ?thesis by (simp add: to_base36_loop.simps)
  qed
qed

lemma to_base36_loop_pos:
  "v > 0 \<Longrightarrow> to_base36_loop v [] = to_base36_loop (v div 36) [] @ [base36_chars ! nat (v mod 36)]"
  by (subst to_base36_loop.simps) (simp add: to_base36_loop_acc[of "v div 36" "[_]"])

lemma to_base36_loop_nonpos: "v \<le> 0 \<Longrightarrow> to_base36_loop v [] = []"
  by (subst to_base36_loop.simps) simp

lemma field_as_padding:
  assumes "0 \<le> v" "0 < k"
  shows "upper (zfill k (to_base36 v))
    = replicate (k - length (to_base36_loop v [])) (CHR ''0'') @ to_base36_loop v []"
proof (cases "v = 0")
  case True
  have "replicate (k - Suc 0) (CHR ''0'') @ ''0'' = replicate k (CHR ''0'')"
    using assms(2) by (cases k) (simp_all add: replicate_append_same)
  then show ?thesis using True zero_alpha
    by (simp add: to_base36_def to_base36_loop_nonpos zfill_def upper_def upper_alpha)
next
  case False
  have "set (to_base36_loop v []) \<subseteq> set base36_chars"
    using to_base36_loop_set[of v "[]"] by simp
  then have "set (zfill k (to_base36_loop v [])) \<subseteq> set base36_chars"
    "zfill k (to_base36_loop v []) = replicate (k - length (to_base36_loop v [])) (CHR ''0'') @ to_base36_loop v []"
    using zero_alpha by (auto simp: zfill_alpha)
  then show ?thesis using False by (simp add: to_base36_def upper_alpha_string)
qed

lemma padding_step:
  assumes "0 \<le> v" "v < 36 ^ Suc k"
  shows "replicate (Suc k - length (to_base36_loop v [])) (CHR ''0'') @ to_base36_loop v []
    = (replicate (k - length (to_base36_loop (v div 36) [])) (CHR ''0'') @ to_base36_loop (v div 36) [])
        @ [base36_chars ! nat (v mod 36)]"
proof (cases "v = 0")
  case True
  have "base36_chars ! 0 = CHR ''0''" by (simp add: base36_chars_def)
  then show ?thesis using True by (simp add: to_base36_loop_nonpos replicate_append_same)
next
  case False
  then have pos: "v > 0" using assms(1) by simp
  show ?thesis by (simp add: to_base36_loop_pos[OF pos])
qed

lemma padding_length:
  assumes "v < 36 ^ k"
  shows "length (replicate (k - length (to_base36_loop v [])) (CHR ''0'') @ to_base36_loop v []) = k"
  using to_base36_loop_length[OF assms, of "[]"] by simp

lemma padding_increasing:
  assumes "0 \<le> m" "m < n" "n < 36 ^ k"
  shows "(replicate (k - length (to_base36_loop m [])) (CHR ''0'') @ to_base36_loop m [],
          replicate (k - length (to_base36_loop n [])) (CHR ''0'') @ to_base36_loop n [])
         \<in> lexord {(x, y). (of_char x :: nat) < of_char y}"
  using assms
proof (induction k arbitrary: m n)
  case 0
  then show ?case by simp
next
  case (Suc k)
  let ?R = "{(x, y). (of_char x :: nat) < of_char y}"
  let ?pad = "\<lambda>k v. replicate (k - length (to_base36_loop v [])) (CHR ''0'') @ to_base36_loop v []"
  let ?D = "\<lambda>v. base36_chars ! nat (v mod 36)"
  have n0: "0 \<le> n" using Suc.prems by simp
  have m_lt: "m < 36 ^ Suc k" using Suc.prems by simp
  have pm: "?pad (Suc k) m = ?pad k (m div 36) @ [?D m]"
    using padding_step[OF Suc.prems(1) m_lt] .
  have pn: "?pad (Suc k) n = ?pad k (n div 36) @ [?D n]"
    using padding_step[OF n0 Suc.prems(3)] .
  have dm: "m div 36 < 36 ^ k" "n div 36 < 36 ^ k"
    using m_lt Suc.prems(3) by (simp_all add: div_less_iff_less_mult mult.commute)
  have le: "m div 36 \<le> n div 36" using Suc.prems(2) by (simp add: zdiv_mono1)
  show ?case
  proof (cases "m div 36 < n div 36")
    case True
    have "0 \<le> m div 36" using Suc.prems(1) by (simp add: pos_imp_zdiv_nonneg_iff)
    then have "(?pad k (m div 36), ?pad k (n div 36)) \<in> lexord ?R"
      using Suc.IH[of "m div 36" "n div 36"] True dm by simp
    moreover have "length (?pad k (n div 36)) \<le> length (?pad k (m div 36))"
      using padding_length[OF dm(1)] padding_length[OF dm(2)] by simp
    ultimately have "(?pad k (m div 36) @ [?D m], ?pad k (n div 36) @ [?D n]) \<in> lexord ?R"
      by (rule lexord_sufI)
    then show ?thesis unfolding pm pn .
  next
    case False
    then have eq: "m div 36 = n div 36" using le by simp
    have "m mod 36 < n mod 36"
      using Suc.prems(2) eq by (metis mult_div_mod_eq add_less_cancel_left)
    moreover have "0 \<le> m mod 36" "n mod 36 < 36" by simp_all
    ultimately have "nat (m mod 36) < nat (n mod 36)" "nat (n mod 36) < 36" by simp_all
    then have "([?D m], [?D n]) \<in> lexord ?R"
      using base36_chars_increasing by simp
    then have "(?pad k (n div 36) @ [?D m], ?pad k (n div 36) @ [?D n]) \<in> lexord ?R"
      by (simp only: lexord_append_leftI)
    then show ?thesis unfolding pm pn eq .
  qed
qed

lemma field_increasing:
  assumes "0 \<le> m" "m < n" "n < 36 ^ k"
  shows "(upper (zfill k (to_base36 m)), upper (zfill k (to_base36 n)))
         \<in> lexord {(x, y). (of_char x :: nat) < of_char y}"
proof -
  have k: "0 < k" using assms by (cases k) auto
  have n0: "0 \<le> n" using assms by simp
  show ?thesis
    unfolding field_as_padding[OF assms(1) k] field_as_padding[OF n0 k]
    using assms by (rule padding_increasing)
qed

section \<open>Successive calls of \<open>generate\<close>\<close>

lemma incident_generate_sequence:
  assumes "seq_ok g" "hs_ok hs" "count0 g h + 1 < 36 ^ 4"
  obtains inc g' w' where
    "incident_generate g h c r t hs adm w = Some (inc, g', w')"
    "seq_ok g'" "count0 g' h = count0 g h + 1" "\<And>h'. h' \<noteq> h \<Longrightarrow> count0 g' h' = count0 g h'"
    "inc_homeId inc = h"
    "sequence_component (inc_incidentNumber inc) = upper (zfill 4 (to_base36 (count0 g h + 1)))"
    "inc_incidentNumber inc = get_incident_type_code (inc_incidentType inc) @ ''IR''
       @ upper (zfill 2 (to_base36 (case home_sequence_map g' h of None \<Rightarrow> 1 | Some s \<Rightarrow> s)))
       @ upper (zfill 4 (to_base36 (count0 g h + 1)))
       @ [the (calculate_luhn_mod36_checksum (get_incident_type_code (inc_incidentType inc) @ ''IR''
       @ upper (zfill 2 (to_base36 (case home_sequence_map g' h of None \<Rightarrow> 1 | Some s \<Rightarrow> s)))
       @ upper (zfill 4 (to_base36 (count0 g h + 1)))))]"
    "home_sequence_map g' = sequence_after g h hs"
proof -
  obtain inc g' w' wp where
    res: "incident_generate g h c r t hs adm w = Some (inc, g', w')"
    and cnt: "incident_counter_by_home g' = (incident_counter_by_home g)(h \<mapsto> counter_after g h)"
    and sq: "home_sequence_map g' = sequence_after g h hs"
    and num: "generate_incident_number g' h (inc_incidentType inc) (counter_after g h)
       = Some (inc_incidentNumber inc)"
    and hm: "inc_homeId inc = h"
    by (rule incident_generate_result[of g h c r t hs adm w]) (rule that; assumption)
  have ca: "counter_after g h = count0 g h + 1" by (simp add: counter_after_def count0_def)
  have ok: "seq_ok g'"
    using assms(1,2) unfolding seq_ok_def hs_ok_def sq sequence_after_def
    by (auto split: option.splits if_splits)
  have b: "(case home_sequence_map g' h of None \<Rightarrow> 1 | Some s \<Rightarrow> s) < 36 ^ 2"
    using ok unfolding seq_ok_def by (auto split: option.splits)
  obtain p k where pk: "generate_incident_number g' h (inc_incidentType inc) (count0 g h + 1) = Some (p @ [k])"
    and p: "p = get_incident_type_code (inc_incidentType inc) @ ''IR''
           @ upper (zfill 2 (to_base36 (case home_sequence_map g' h of None \<Rightarrow> 1 | Some s \<Rightarrow> s)))
           @ upper (zfill 4 (to_base36 (count0 g h + 1)))"
    and k: "calculate_luhn_mod36_checksum p = Some k"
    by (rule generate_incident_number_shape[OF b assms(3), of "inc_incidentType inc"]) (rule that; assumption)
  have n: "inc_incidentNumber inc = p @ [k]" using num pk ca by simp
  have l2: "length (upper (zfill 2 (to_base36 (case home_sequence_map g' h of None \<Rightarrow> 1 | Some s \<Rightarrow> s)))) = 2"
    using field_length[OF b] by simp
  have l4: "length (upper (zfill 4 (to_base36 (count0 g h + 1)))) = 4"
    using field_length[OF assms(3)] by simp
  have sc: "sequence_component (inc_incidentNumber inc) = upper (zfill 4 (to_base36 (count0 g h + 1)))"
    unfolding n p sequence_component_def using type_code_alpha[of "inc_incidentType inc"] l2 l4
    by simp
  show ?thesis
  proof (rule that[of inc g' w'])
    show "incident_generate g h c r t hs adm w = Some (inc, g', w')" by (rule res)
    show "seq_ok g'" by (rule ok)
    show "count0 g' h = count0 g h + 1" using cnt ca by (simp add: count0_def)
    show "count0 g' h' = count0 g h'" if "h' \<noteq> h" for h' using cnt that by (simp add: count0_def)
    show "inc_homeId inc = h" by (rule hm)
    show "sequence_component (inc_incidentNumber inc) = upper (zfill 4 (to_base36 (count0 g h + 1)))"
      by (rule sc)
    show "inc_incidentNumber inc = get_incident_type_code (inc_incidentType inc) @ ''IR''
       @ upper (zfill 2 (to_base36 (case home_sequence_map g' h of None \<Rightarrow> 1 | Some s \<Rightarrow> s)))
       @ upper (zfill 4 (to_base36 (count0 g h + 1)))
       @ [the (calculate_luhn_mod36_checksum (get_incident_type_code (inc_incidentType inc) @ ''IR''
       @ upper (zfill 2 (to_base36 (case home_sequence_map g' h of None \<Rightarrow> 1 | Some s \<Rightarrow> s)))
       @ upper (zfill 4 (to_base36 (count0 g h + 1)))))]"
      using n k unfolding p by simp
    show "home_sequence_map g' = sequence_after g h hs" by (rule sq)
  qed
qed

lemma generate_calls_sequence:
  assumes "seq_ok g" "\<forall>call \<in> set calls. hs_ok (fst (snd (snd (snd (snd call)))))"
    and "\<forall>h. 0 \<le> count0 g h \<and> count0 g h + int (length calls) < 36 ^ 4"
  shows "\<exists>incs g' w'. generate_calls g calls w = Some (incs, g', w')
    \<and> map inc_homeId incs = map fst calls
    \<and> (\<forall>b < length incs. sequence_component (inc_incidentNumber (incs ! b))
          = upper (zfill 4 (to_base36 (count0 g (inc_homeId (incs ! b))
              + int (length (filter (\<lambda>i. inc_homeId i = inc_homeId (incs ! b)) (take (Suc b) incs)))))))"
  using assms
proof (induction calls arbitrary: g w)
  case Nil
  show ?case by simp
next
  case (Cons call calls)
  obtain h c r t hs adm where call: "call = (h, c, r, t, hs, adm)" by (cases call) auto
  have hs: "hs_ok hs" using Cons.prems(2) call by simp
  have b1: "count0 g h + 1 < 36 ^ 4" using Cons.prems(3)[rule_format, of h] by simp
  obtain inc g1 w1 where
    res: "incident_generate g h c r t hs adm w = Some (inc, g1, w1)"
    and ok1: "seq_ok g1" and c1: "count0 g1 h = count0 g h + 1"
    and c2: "\<And>h'. h' \<noteq> h \<Longrightarrow> count0 g1 h' = count0 g h'"
    and hm: "inc_homeId inc = h"
    and sc: "sequence_component (inc_incidentNumber inc) = upper (zfill 4 (to_base36 (count0 g h + 1)))"
    by (rule incident_generate_sequence[OF Cons.prems(1) hs b1, of c r t adm w]) (rule that; assumption)
  have cnt1: "count0 g1 h' = count0 g h' + (if h' = h then 1 else 0)" for h'
    using c1 c2[of h'] by simp
  have bound1: "\<forall>h'. 0 \<le> count0 g1 h' \<and> count0 g1 h' + int (length calls) < 36 ^ 4"
  proof
    fix h'
    show "0 \<le> count0 g1 h' \<and> count0 g1 h' + int (length calls) < 36 ^ 4"
      using Cons.prems(3)[rule_format, of h'] cnt1[of h'] by (cases "h' = h") simp_all
  qed
  have hs1: "\<forall>call \<in> set calls. hs_ok (fst (snd (snd (snd (snd call)))))"
    using Cons.prems(2) by simp
  obtain incs g' w' where
    rest: "generate_calls g1 calls w1 = Some (incs, g', w')"
    and homes: "map inc_homeId incs = map fst calls"
    and seqs: "\<forall>b < length incs. sequence_component (inc_incidentNumber (incs ! b))
          = upper (zfill 4 (to_base36 (count0 g1 (inc_homeId (incs ! b))
              + int (length (filter (\<lambda>i. inc_homeId i = inc_homeId (incs ! b)) (take (Suc b) incs))))))"
    using Cons.IH[OF ok1 hs1 bound1, of w1] by blast
  have run: "generate_calls g (call # calls) w = Some (inc # incs, g', w')"
    using res rest by (simp add: call)
  have all: "sequence_component (inc_incidentNumber ((inc # incs) ! b))
          = upper (zfill 4 (to_base36 (count0 g (inc_homeId ((inc # incs) ! b))
              + int (length (filter (\<lambda>i. inc_homeId i = inc_homeId ((inc # incs) ! b))
                       (take (Suc b) (inc # incs)))))))"
    if "b < length (inc # incs)" for b
  proof (cases b)
    case 0
    then show ?thesis using sc hm by simp
  next
    case (Suc b')
    then have b': "b' < length incs" using that by simp
    let ?h = "inc_homeId (incs ! b')"
    have "count0 g1 ?h + int (length (filter (\<lambda>i. inc_homeId i = ?h) (take (Suc b') incs)))
        = count0 g ?h + int (length (filter (\<lambda>i. inc_homeId i = ?h) (take (Suc (Suc b')) (inc # incs))))"
      using cnt1[of ?h] hm by auto
    then show ?thesis using seqs[rule_format, OF b'] Suc by simp
  qed
  show ?case
    using run homes hm all by (intro exI[of _ "inc # incs"] exI[of _ g'] exI[of _ w']) (simp add: call)
qed

lemma count_prefix_less:
  assumes "a < b" "b < length xs" "P (xs ! b)"
  shows "length (filter P (take (Suc a) xs)) < length (filter P (take (Suc b) xs))"
proof -
  define d where "d = b - Suc a"
  have d: "b = Suc a + d" using assms(1) by (simp add: d_def)
  have "take b xs = take (Suc a) xs @ take d (drop (Suc a) xs)"
    unfolding d by (rule take_add)
  then have "length (filter P (take (Suc a) xs)) \<le> length (filter P (take b xs))" by simp
  moreover have "take (Suc b) xs = take b xs @ [xs ! b]"
    using assms(2) by (rule take_Suc_conv_app_nth)
  ultimately show ?thesis using assms(3) by simp
qed

text \<open>
  The incident number of every incident of a home \<open>h\<close> in a run of calls that pass the
  home sequence \<open>s\<close> for \<open>h\<close>: it is the number generated for the home sequence \<open>s\<close>,
  the type of the incident, and the count of the incidents of \<open>h\<close> up to that incident,
  whatever their types.
\<close>

lemma generate_calls_number:
  assumes "\<forall>(home_id, client_id, reporter_id, occurred_at, home_sequence, admin_user_ids) \<in> set calls.
             home_id = h \<longrightarrow> home_sequence = Some s"
    and "home_sequence_map g h = None \<or> home_sequence_map g h = Some s"
  shows "\<exists>incs g' w'. generate_calls g calls w = Some (incs, g', w')
    \<and> map inc_homeId incs = map fst calls
    \<and> (\<forall>b < length incs. inc_homeId (incs ! b) = h \<longrightarrow>
          (\<exists>gb. home_sequence_map gb h = Some s
             \<and> generate_incident_number gb h (inc_incidentType (incs ! b))
                  (count0 g h + int (length (filter (\<lambda>i. inc_homeId i = h) (take (Suc b) incs))))
                = Some (inc_incidentNumber (incs ! b))))"
  using assms
proof (induction calls arbitrary: g w)
  case Nil
  show ?case by simp
next
  case (Cons call calls)
  obtain h' c r t hs adm where call: "call = (h', c, r, t, hs, adm)" by (cases call) auto
  obtain inc g1 w1 wp where
    res: "incident_generate g h' c r t hs adm w = Some (inc, g1, w1)"
    and cnt: "incident_counter_by_home g1 = (incident_counter_by_home g)(h' \<mapsto> counter_after g h')"
    and sq: "home_sequence_map g1 = sequence_after g h' hs"
    and num: "generate_incident_number g1 h' (inc_incidentType inc) (counter_after g h')
       = Some (inc_incidentNumber inc)"
    and hm: "inc_homeId inc = h'"
    by (rule incident_generate_result[of g h' c r t hs adm w]) (rule that; assumption)
  have ca: "counter_after g h' = count0 g h' + 1" by (simp add: counter_after_def count0_def)
  have cnt1: "count0 g1 h = count0 g h + (if h' = h then 1 else 0)"
    using cnt ca by (simp add: count0_def)
  have same: "home_sequence_map g1 h = Some s" if "h' = h"
  proof -
    have "hs = Some s" using Cons.prems(1) call that by simp
    then show ?thesis using Cons.prems(2) that unfolding sq sequence_after_def by auto
  qed
  have other: "home_sequence_map g1 h = home_sequence_map g h" if "h' \<noteq> h"
    using that unfolding sq sequence_after_def by (auto split: option.splits)
  have m1: "home_sequence_map g1 h = None \<or> home_sequence_map g1 h = Some s"
    using same other Cons.prems(2) by (cases "h' = h") simp_all
  have a1: "\<forall>(home_id, client_id, reporter_id, occurred_at, home_sequence, admin_user_ids) \<in> set calls.
             home_id = h \<longrightarrow> home_sequence = Some s"
    using Cons.prems(1) by simp
  obtain incs g' w' where
    rest: "generate_calls g1 calls w1 = Some (incs, g', w')"
    and homes: "map inc_homeId incs = map fst calls"
    and nums: "\<forall>b < length incs. inc_homeId (incs ! b) = h \<longrightarrow>
          (\<exists>gb. home_sequence_map gb h = Some s
             \<and> generate_incident_number gb h (inc_incidentType (incs ! b))
                  (count0 g1 h + int (length (filter (\<lambda>i. inc_homeId i = h) (take (Suc b) incs))))
                = Some (inc_incidentNumber (incs ! b)))"
    using Cons.IH[OF a1 m1, of w1] by blast
  have run: "generate_calls g (call # calls) w = Some (inc # incs, g', w')"
    using res rest by (simp add: call)
  have all: "\<exists>gb. home_sequence_map gb h = Some s
             \<and> generate_incident_number gb h (inc_incidentType ((inc # incs) ! b))
                  (count0 g h + int (length (filter (\<lambda>i. inc_homeId i = h)
                     (take (Suc b) (inc # incs)))))
                = Some (inc_incidentNumber ((inc # incs) ! b))"
    if "b < length (inc # incs)" "inc_homeId ((inc # incs) ! b) = h" for b
  proof (cases b)
    case 0
    then have hh: "h' = h" using that(2) hm by simp
    have "generate_incident_number g1 h (inc_incidentType inc) (count0 g h + 1)
        = Some (inc_incidentNumber inc)"
      using num ca hh by simp
    then show ?thesis using 0 same[OF hh] hm hh by (intro exI[of _ g1]) simp
  next
    case (Suc b')
    then have b': "b' < length incs" "inc_homeId (incs ! b') = h" using that by simp_all
    have "count0 g1 h + int (length (filter (\<lambda>i. inc_homeId i = h) (take (Suc b') incs)))
        = count0 g h + int (length (filter (\<lambda>i. inc_homeId i = h) (take (Suc (Suc b')) (inc # incs))))"
      using cnt1 hm by auto
    then show ?thesis using nums[rule_format, OF b'] Suc by simp
  qed
  show ?case
    using run homes hm all by (intro exI[of _ "inc # incs"] exI[of _ g'] exI[of _ w']) (simp add: call)
qed

section \<open>Clients and ledgers in phase 3\<close>

lemma ledger_inv_iff:
  "ledger_inv cls E \<longleftrightarrow>
     distinct (map entry_client E) \<and> entry_client ` set E \<subseteq> cl_id ` set cls
     \<and> (\<forall>c\<in>set cls. cl_isActive c \<longleftrightarrow> cl_dischargeDate c = None)
     \<and> (\<forall>iv\<in>set E. \<forall>c\<in>set cls. cl_id c = entry_client iv \<longrightarrow> consistent c (fst (snd iv)))"
  unfolding ledger_inv_def list_all_iff by auto

lemma discharge_client_keys:
  "discharge_client d cid cls w = (cls', w') \<Longrightarrow> map client_key cls' = map client_key cls"
proof (induction cls arbitrary: cls' w')
  case Nil
  then show ?case by simp
next
  case (Cons c cs)
  show ?case
  proof (cases "cl_id c = cid")
    case True
    then show ?thesis using Cons.prems
      by (auto simp: Let_def client_key_def split: prod.splits)
  next
    case False
    obtain cs' w1 where r: "discharge_client d cid cs w = (cs', w1)" by force
    then show ?thesis using Cons.prems Cons.IH[OF r] False
      by (auto simp: Let_def client_key_def)
  qed
qed

lemma discharge_client_effect:
  assumes "discharge_client d cid cls w = (cls', w')" "distinct (map cl_id cls)"
  shows "\<forall>c'\<in>set cls'.
           (cl_id c' = cid \<and> \<not> cl_isActive c' \<and> cl_dischargeDate c' = Some (date_of d))
           \<or> (cl_id c' \<noteq> cid \<and> c' \<in> set cls)"
  using assms
proof (induction cls arbitrary: cls' w')
  case Nil
  then show ?case by simp
next
  case (Cons c cs)
  show ?case
  proof (cases "cl_id c = cid")
    case True
    have "cl_id c \<notin> cl_id ` set cs" using Cons.prems(2) by simp
    then have "\<forall>x\<in>set cs. cl_id x \<noteq> cid" unfolding True[symmetric] by (auto simp: image_iff)
    then show ?thesis using Cons.prems(1) True
      by (auto simp: Let_def split: prod.splits)
  next
    case False
    obtain cs' w1 where r: "discharge_client d cid cs w = (cs', w1)" by force
    have "distinct (map cl_id cs)" using Cons.prems(2) by simp
    from Cons.IH[OF r this] show ?thesis using Cons.prems(1) r False
      by (auto simp: Let_def)
  qed
qed

lemma keys_ids: "map client_key cls' = map client_key cls \<Longrightarrow> map cl_id cls' = map cl_id cls"
proof -
  assume "map client_key cls' = map client_key cls"
  then have "map (fst \<circ> client_key) cls' = map (fst \<circ> client_key) cls"
    by (metis map_map)
  moreover have "fst \<circ> client_key = cl_id" by (auto simp: client_key_def)
  ultimately show ?thesis by simp
qed

lemma ledger_inv_discharge:
  assumes inv: "ledger_inv cls (A @ (s, None, cid) # R)" and d: "distinct (map cl_id cls)"
    and dc: "discharge_client t cid cls w = (cls1, w1)"
  shows "ledger_inv cls1 (A @ (s, Some t, cid) # R)"
proof -
  have ids: "map cl_id cls1 = map cl_id cls" using discharge_client_keys[OF dc] by (rule keys_ids)
  then have idset: "cl_id ` set cls1 = cl_id ` set cls" by (metis set_map)
  have eff: "\<forall>c'\<in>set cls1.
           (cl_id c' = cid \<and> \<not> cl_isActive c' \<and> cl_dischargeDate c' = Some (date_of t))
           \<or> (cl_id c' \<noteq> cid \<and> c' \<in> set cls)"
    using discharge_client_effect[OF dc d] .
  from inv have i1: "distinct (map entry_client (A @ (s, None, cid) # R))"
    and i2: "entry_client ` set (A @ (s, None, cid) # R) \<subseteq> cl_id ` set cls"
    and i3: "\<forall>c\<in>set cls. cl_isActive c \<longleftrightarrow> cl_dischargeDate c = None"
    and i4: "\<forall>iv\<in>set (A @ (s, None, cid) # R). \<forall>c\<in>set cls.
               cl_id c = entry_client iv \<longrightarrow> consistent c (fst (snd iv))"
    unfolding ledger_inv_iff by blast+
  have o1: "distinct (map entry_client (A @ (s, Some t, cid) # R))"
    using i1 by (simp add: entry_client_def)
  have o2: "entry_client ` set (A @ (s, Some t, cid) # R) \<subseteq> cl_id ` set cls1"
    using i2 unfolding idset by (simp add: entry_client_def)
  have o3: "\<forall>c\<in>set cls1. cl_isActive c \<longleftrightarrow> cl_dischargeDate c = None"
    using eff i3 by auto
  have others: "entry_client iv \<noteq> cid" if "iv \<in> set A \<union> set R" for iv
    using i1 that by (auto simp: entry_client_def image_iff)
  have o4: "\<forall>iv\<in>set (A @ (s, Some t, cid) # R). \<forall>c\<in>set cls1.
               cl_id c = entry_client iv \<longrightarrow> consistent c (fst (snd iv))"
  proof (intro ballI impI)
    fix iv c
    assume iv: "iv \<in> set (A @ (s, Some t, cid) # R)" and c: "c \<in> set cls1"
      and eq: "cl_id c = entry_client iv"
    show "consistent c (fst (snd iv))"
    proof (cases "iv = (s, Some t, cid)")
      case True
      then have "cl_id c = cid" using eq by (simp add: entry_client_def)
      then have "\<not> cl_isActive c \<and> cl_dischargeDate c = Some (date_of t)"
        using eff c by auto
      then show ?thesis using True by (simp add: consistent_def)
    next
      case False
      then have m: "iv \<in> set A \<union> set R" using iv by auto
      then have "cl_id c \<noteq> cid" using others eq by simp
      then have "c \<in> set cls" using eff c by auto
      moreover have "iv \<in> set (A @ (s, None, cid) # R)" using m by auto
      ultimately show ?thesis using i4 eq by blast
    qed
  qed
  show ?thesis unfolding ledger_inv_iff using o1 o2 o3 o4 by blast
qed

lemma hazard_occupancy_inv:
  assumes "hazard_occupancy t occ cls w = (occ', cls', w')"
    and "distinct (map cl_id cls)" and "ledger_inv cls (A @ occ @ B)"
  shows "map client_key cls' = map client_key cls \<and> map entry_client occ' = map entry_client occ
     \<and> map fst occ' = map fst occ \<and> ledger_inv cls' (A @ occ' @ B)"
  using assms
proof (induction occ arbitrary: A cls w occ' cls' w')
  case Nil
  then show ?case by simp
next
  case (Cons iv occ)
  obtain s e cid where iv: "iv = (s, e, cid)" by (cases iv) auto
  obtain u w0 where u: "random_unit w = (u, w0)" by force
  show ?case
  proof (cases "e = None \<and> days_between t s > 180 \<and> u > 98 / 100")
    case True
    obtain cls1 w1 where dc: "discharge_client t cid cls w0 = (cls1, w1)" by force
    obtain occ1 cls2 w2 where r: "hazard_occupancy t occ cls1 w1 = (occ1, cls2, w2)"
      by (cases "hazard_occupancy t occ cls1 w1") auto
    have res: "occ' = (s, Some t, cid) # occ1" "cls' = cls2"
      using Cons.prems(1) True u dc r by (simp_all add: iv)
    have k1: "map client_key cls1 = map client_key cls" using dc by (rule discharge_client_keys)
    have d1: "distinct (map cl_id cls1)" using keys_ids[OF k1] Cons.prems(2) by simp
    have "ledger_inv cls (A @ (s, None, cid) # (occ @ B))"
      using Cons.prems(3) True by (simp add: iv)
    from ledger_inv_discharge[OF this Cons.prems(2) dc]
    have "ledger_inv cls1 ((A @ [(s, Some t, cid)]) @ occ @ B)" by simp
    from Cons.IH[OF r d1 this]
    show ?thesis using res k1 by (simp add: iv entry_client_def)
  next
    case False
    obtain occ1 cls2 w2 where r: "hazard_occupancy t occ cls (if e = None \<and> days_between t s > 180 then w0 else w) = (occ1, cls2, w2)"
      by (cases "hazard_occupancy t occ cls (if e = None \<and> days_between t s > 180 then w0 else w)") auto
    have res: "occ' = (s, e, cid) # occ1" "cls' = cls2"
      using Cons.prems(1) False u r by (auto simp: iv split: if_splits)
    have "ledger_inv cls ((A @ [(s, e, cid)]) @ occ @ B)"
      using Cons.prems(3) by (simp add: iv)
    from Cons.IH[OF r Cons.prems(2) this]
    show ?thesis using res by (simp add: iv entry_client_def)
  qed
qed

lemma hazard_beds_inv:
  assumes "hazard_beds t led cls w = (led', cls', w')"
    and "distinct (map cl_id cls)" and "ledger_inv cls (A @ entries_of led @ B)"
  shows "map client_key cls' = map client_key cls
     \<and> map (\<lambda>(b, occ). (b, map entry_client occ)) led' = map (\<lambda>(b, occ). (b, map entry_client occ)) led
     \<and> map (\<lambda>(b, occ). (b, map fst occ)) led' = map (\<lambda>(b, occ). (b, map fst occ)) led
     \<and> ledger_inv cls' (A @ entries_of led' @ B)"
  using assms
proof (induction led arbitrary: A cls w led' cls' w')
  case Nil
  then show ?case by (simp add: entries_of_def)
next
  case (Cons bo led)
  obtain b occ where bo: "bo = (b, occ)" by (cases bo) auto
  obtain occ1 cls1 w1 where h: "hazard_occupancy t occ cls w = (occ1, cls1, w1)"
    by (cases "hazard_occupancy t occ cls w") auto
  obtain led1 cls2 w2 where r: "hazard_beds t led cls1 w1 = (led1, cls2, w2)"
    by (cases "hazard_beds t led cls1 w1") auto
  have res: "led' = (b, occ1) # led1" "cls' = cls2"
    using Cons.prems(1) h r by (simp_all add: bo)
  have "ledger_inv cls (A @ occ @ (entries_of led @ B))"
    using Cons.prems(3) by (simp add: bo entries_of_def)
  from hazard_occupancy_inv[OF h Cons.prems(2) this]
  have k1: "map client_key cls1 = map client_key cls"
    and e1: "map entry_client occ1 = map entry_client occ" and s1: "map fst occ1 = map fst occ"
    and i1: "ledger_inv cls1 (A @ occ1 @ entries_of led @ B)" by blast+
  have d1: "distinct (map cl_id cls1)" using keys_ids[OF k1] Cons.prems(2) by simp
  have "ledger_inv cls1 ((A @ occ1) @ entries_of led @ B)" using i1 by simp
  from Cons.IH[OF r d1 this]
  show ?case using res k1 e1 s1 by (simp add: bo entries_of_def)
qed

lemma has_entry_iff:
  "has_entry led c \<longleftrightarrow>
     (\<exists>occ iv. (cl_bedId c, occ) \<in> set led \<and> iv \<in> set occ \<and> entry_client iv = cl_id c)"
  unfolding has_entry_def list_ex_iff by auto

lemma find_available_bed_key:
  "find_available_bed E led d = Some b \<Longrightarrow> b \<in> fst ` set led"
  by (induction led) (auto split: if_splits)

lemma ledger_append_keys: "map fst (ledger_append led b iv) = map fst led"
  by (induction led) (auto simp: ledger_append_def)

lemma ledger_append_entries:
  assumes "distinct (map fst led)" "b \<in> fst ` set led"
  shows "\<exists>P Q. entries_of led = P @ Q \<and> entries_of (ledger_append led b iv) = P @ iv # Q"
  using assms
proof (induction led)
  case Nil
  then show ?case by simp
next
  case (Cons bo led)
  obtain b' occ where bo: "bo = (b', occ)" by (cases bo) auto
  show ?case
  proof (cases "b' = b")
    case True
    then have "b \<notin> fst ` set led" using Cons.prems(1) bo by simp
    then have same: "ledger_append led b iv = led"
      by (induction led) (auto simp: ledger_append_def)
    have "entries_of (bo # led) = occ @ entries_of led" by (simp add: bo entries_of_def)
    moreover have "entries_of (ledger_append (bo # led) b iv) = occ @ iv # entries_of led"
      using same True by (simp add: bo entries_of_def ledger_append_def)
    ultimately show ?thesis by blast
  next
    case False
    then have "distinct (map fst led)" "b \<in> fst ` set led" using Cons.prems bo by auto
    from Cons.IH[OF this] obtain P Q where
      pq: "entries_of led = P @ Q" "entries_of (ledger_append led b iv) = P @ iv # Q" by blast
    have "entries_of (bo # led) = (occ @ P) @ Q" using pq by (simp add: bo entries_of_def)
    moreover have "entries_of (ledger_append (bo # led) b iv) = (occ @ P) @ iv # Q"
      using pq False by (simp add: bo entries_of_def ledger_append_def)
    ultimately show ?thesis by blast
  qed
qed

lemma ledger_append_has_entry:
  assumes "b \<in> fst ` set led"
  shows "has_entry (ledger_append led b iv) c
     \<longleftrightarrow> has_entry led c \<or> (cl_bedId c = b \<and> entry_client iv = cl_id c)"
  using assms
proof (induction led)
  case Nil
  then show ?case by simp
next
  case (Cons bo led)
  obtain b' occ where bo: "bo = (b', occ)" by (cases bo) auto
  have rest: "has_entry (ledger_append led b iv) c
     \<longleftrightarrow> has_entry led c \<or> (b \<in> fst ` set led \<and> cl_bedId c = b \<and> entry_client iv = cl_id c)"
  proof (cases "b \<in> fst ` set led")
    case True
    then show ?thesis using Cons.IH by simp
  next
    case False
    then have "ledger_append led b iv = led"
      by (induction led) (auto simp: ledger_append_def)
    then show ?thesis using False by simp
  qed
  have step: "has_entry (x # l) c \<longleftrightarrow>
      (fst x = cl_bedId c \<and> (\<exists>iv\<in>set (snd x). entry_client iv = cl_id c)) \<or> has_entry l c" for x l
    by (cases x) (auto simp: has_entry_def list_ex_iff)
  have la: "ledger_append (bo # led) b iv
      = (if b' = b then (b', occ @ [iv]) else (b', occ)) # ledger_append led b iv"
    by (simp add: bo ledger_append_def)
  show ?case unfolding la step rest using Cons.prems bo by (auto simp: step)
qed

lemma ledger_inv_insert:
  assumes inv: "ledger_inv cls (A @ R)" and fresh: "cl_id c \<notin> cl_id ` set cls"
    and c1: "cl_isActive c \<longleftrightarrow> cl_dischargeDate c = None"
    and c2: "consistent c e"
  shows "ledger_inv (cls @ [c]) (A @ (s, e, cl_id c) # R)"
proof -
  from inv have i1: "distinct (map entry_client (A @ R))"
    and i2: "entry_client ` set (A @ R) \<subseteq> cl_id ` set cls"
    and i3: "\<forall>c\<in>set cls. cl_isActive c \<longleftrightarrow> cl_dischargeDate c = None"
    and i4: "\<forall>iv\<in>set (A @ R). \<forall>c\<in>set cls.
               cl_id c = entry_client iv \<longrightarrow> consistent c (fst (snd iv))"
    unfolding ledger_inv_iff by blast+
  have nin: "cl_id c \<notin> entry_client ` set (A @ R)" using i2 fresh by blast
  have o1: "distinct (map entry_client (A @ (s, e, cl_id c) # R))"
    using i1 nin by (auto simp: entry_client_def image_iff)
  have o2: "entry_client ` set (A @ (s, e, cl_id c) # R) \<subseteq> cl_id ` set (cls @ [c])"
    using i2 by (auto simp: entry_client_def)
  have o3: "\<forall>x\<in>set (cls @ [c]). cl_isActive x \<longleftrightarrow> cl_dischargeDate x = None"
    using i3 c1 by auto
  have o4: "\<forall>iv\<in>set (A @ (s, e, cl_id c) # R). \<forall>x\<in>set (cls @ [c]).
               cl_id x = entry_client iv \<longrightarrow> consistent x (fst (snd iv))"
  proof (intro ballI impI)
    fix iv x
    assume iv: "iv \<in> set (A @ (s, e, cl_id c) # R)" and x: "x \<in> set (cls @ [c])"
      and eq: "cl_id x = entry_client iv"
    show "consistent x (fst (snd iv))"
    proof (cases "iv \<in> set (A @ R)")
      case True
      then have "entry_client iv \<in> cl_id ` set cls" using i2 by blast
      then have "cl_id x \<noteq> cl_id c" using fresh eq by auto
      then have "x \<in> set cls" using x by auto
      then show ?thesis using i4 True eq by blast
    next
      case False
      then have ivn: "iv = (s, e, cl_id c)" using iv by auto
      then have "cl_id x = cl_id c" using eq by (simp add: entry_client_def)
      then have "x = c" using x fresh by (auto simp: image_iff)
      then show ?thesis using c2 ivn by simp
    qed
  qed
  show ?thesis unfolding ledger_inv_iff using o1 o2 o3 o4 by blast
qed

lemma client_generate_props:
  assumes "client_generate h b t cg disc dd w = (c, w')"
    and "disc \<longleftrightarrow> dd \<noteq> None"
  shows "cl_id c = fst (uuid4 w)" "cl_homeId c = h" "cl_bedId c = b"
    "cl_isActive c \<longleftrightarrow> cl_dischargeDate c = None" "consistent c dd"
    "cl_createdAt c = t" "cl_admissionDate c = date_of t"
    "cl_dischargeDate c = map_option date_of dd"
  using assms
  by (auto simp: client_generate_def Let_def consistent_def split: prod.splits option.splits if_splits)

lemma home_inv_rnd [simp]: "home_inv cls0 X h (st\<lparr>rnd := w\<rparr>) = home_inv cls0 X h st"
  by (simp add: home_inv_def)

lemma home_inv_admit:
  assumes hi: "home_inv cls0 X h st"
    and fb: "b \<in> fst ` set (bed_occupancy st)"
    and cg: "client_generate h b t cgv disc dd w = (c, w')" and dd: "disc \<longleftrightarrow> dd \<noteq> None"
    and dist: "distinct (map cl_id (clients st @ [c]))"
  shows "home_inv cls0 X h
           \<lparr>clients = clients st @ [c],
            bed_occupancy = ledger_append (bed_occupancy st) b (t, dd, cl_id c), rnd = w''\<rparr>"
proof -
  let ?led = "bed_occupancy st" and ?cls = "clients st"
  let ?led' = "ledger_append ?led b (t, dd, cl_id c)"
  from hi have inv: "ledger_inv ?cls (X @ entries_of ?led)"
    and keys: "distinct (map fst ?led)"
    and old: "map client_key (take (length cls0) ?cls) = map client_key cls0"
    and len: "length cls0 \<le> length ?cls"
    and new: "list_all (\<lambda>c. cl_homeId c = h \<and> has_entry ?led c) (drop (length cls0) ?cls)"
    unfolding home_inv_def by blast+
  have props: "cl_homeId c = h" "cl_bedId c = b"
    "cl_isActive c \<longleftrightarrow> cl_dischargeDate c = None" "consistent c dd"
    using client_generate_props[OF cg dd] by blast+
  have fresh: "cl_id c \<notin> cl_id ` set ?cls" using dist by simp
  obtain P Q where pq: "entries_of ?led = P @ Q" "entries_of ?led' = P @ (t, dd, cl_id c) # Q"
    using ledger_append_entries[OF keys fb] by blast
  have "ledger_inv ?cls ((X @ P) @ Q)" using inv pq(1) by simp
  from ledger_inv_insert[OF this fresh props(3,4), of t]
  have o1: "ledger_inv (?cls @ [c]) (X @ entries_of ?led')" using pq(2) by simp
  have o2: "distinct (map fst ?led')" using keys by (simp add: ledger_append_keys)
  have o3: "map client_key (take (length cls0) (?cls @ [c])) = map client_key cls0"
    using old len by simp
  have o4: "length cls0 \<le> length (?cls @ [c])" using len by simp
  have he: "has_entry ?led' x" if "has_entry ?led x" for x
    using ledger_append_has_entry[OF fb, of "(t, dd, cl_id c)" x] that by simp
  have hc: "has_entry ?led' c"
    using ledger_append_has_entry[OF fb, of "(t, dd, cl_id c)" c] props(2)
    by (simp add: entry_client_def)
  have o5: "list_all (\<lambda>c. cl_homeId c = h \<and> has_entry ?led' c) (drop (length cls0) (?cls @ [c]))"
    using new len he hc props(1) by (auto simp: list_all_iff)
  show ?thesis unfolding home_inv_def using o1 o2 o3 o4 o5 by simp
qed

lemma admit_initial_cases:
  obtains (skip) w where "admit_initial E h op cgs st = st\<lparr>rnd := w\<rparr>"
  | (admit) b t cgv c w w' w'' where
      "b \<in> fst ` set (bed_occupancy st)"
      "client_generate h b t cgv False None w = (c, w')"
      "admit_initial E h op cgs st
         = \<lparr>clients = clients st @ [c],
            bed_occupancy = ledger_append (bed_occupancy st) b (t, None, cl_id c), rnd = w''\<rparr>"
proof -
  obtain off w0 where r: "randint 0 30 (rnd st) = (off, w0)" by force
  let ?t = "op + days off"
  show ?thesis
  proof (cases "find_available_bed E (bed_occupancy st) ?t")
    case None
    then have "admit_initial E h op cgs st = st\<lparr>rnd := w0\<rparr>"
      by (simp add: admit_initial_def r)
    then show ?thesis by (rule skip)
  next
    case (Some b)
    obtain cgv w1 where c1: "choice cgs w0 = (cgv, w1)" by force
    obtain c w2 where c2: "client_generate h b ?t cgv False None w1 = (c, w2)" by force
    have "admit_initial E h op cgs st
         = \<lparr>clients = clients st @ [c],
            bed_occupancy = ledger_append (bed_occupancy st) b (?t, None, cl_id c), rnd = w2\<rparr>"
      by (simp add: admit_initial_def r Some c1 c2)
    then show ?thesis using find_available_bed_key[OF Some] c2 by (rule admit[rotated 2])
  qed
qed

lemma admit_initial_inv:
  assumes "home_inv cls0 X h st"
    and "distinct (map cl_id (clients (admit_initial E h op cgs st)))"
  shows "home_inv cls0 X h (admit_initial E h op cgs st)"
proof (cases rule: admit_initial_cases[of E h op cgs st])
  case (skip w)
  then show ?thesis using assms(1) by simp
next
  case (admit b t cgv c w w' w'')
  have "distinct (map cl_id (clients st @ [c]))" using assms(2) admit(3) by simp
  from home_inv_admit[OF assms(1) admit(1,2) _ this, of w'']
  show ?thesis using admit(3) by simp
qed

lemma admit_initial_ids:
  "\<exists>more. clients (admit_initial E h op cgs st) = clients st @ more"
  by (cases rule: admit_initial_cases[of E h op cgs st]) auto

lemma admit_gradual_cases:
  obtains (skip) w where "admit_gradual E h beds cgs t st = st\<lparr>rnd := w\<rparr>"
  | (admit) b cgv disc dd c w w' w'' where
      "b \<in> fst ` set (bed_occupancy st)"
      "client_generate h b t cgv disc dd w = (c, w')" "disc \<longleftrightarrow> dd \<noteq> None"
      "case dd of None \<Rightarrow> True | Some d \<Rightarrow> t < d \<and> d < E"
      "admit_gradual E h beds cgs t st
         = \<lparr>clients = clients st @ [c],
            bed_occupancy = ledger_append (bed_occupancy st) b (t, dd, cl_id c), rnd = w''\<rparr>"
proof -
  obtain u w0 where r: "random_unit (rnd st) = (u, w0)" by force
  show ?thesis
  proof (cases "occupied_beds E (bed_occupancy st) t < length beds \<and> u > 7 / 10")
    case False
    then have "admit_gradual E h beds cgs t st = st \<or> admit_gradual E h beds cgs t st = st\<lparr>rnd := w0\<rparr>"
      by (auto simp: admit_gradual_def r)
    moreover have "st = st\<lparr>rnd := rnd st\<rparr>" by simp
    ultimately show ?thesis using skip by metis
  next
    case True
    show ?thesis
    proof (cases "find_available_bed E (bed_occupancy st) t")
      case None
      then have "admit_gradual E h beds cgs t st = st\<lparr>rnd := w0\<rparr>"
        using True by (simp add: admit_gradual_def r)
      then show ?thesis by (rule skip)
    next
      case (Some b)
      obtain cgv w1 where c1: "choice cgs w0 = (cgv, w1)" by force
      obtain stay w2 where c2: "randint 60 700 w1 = (stay, w2)" by force
      obtain u2 w3 where c3: "random_unit w2 = (u2, w3)" by force
      let ?dd = "t + days stay"
      define disc where "disc = (?dd < E \<and> u2 > 6 / 10)"
      define w4 where "w4 = (if ?dd < E then w3 else w2)"
      define dd where "dd = (if disc then Some ?dd else None)"
      obtain c w5 where c5: "client_generate h b t cgv disc dd w4 = (c, w5)" by force
      have stay: "60 \<le> stay" using randint_range[of 60 700 w1] c2 by simp
      then have "0 < days stay" by (simp add: days_def usec_per_day_def)
      then have rng: "case dd of None \<Rightarrow> True | Some d \<Rightarrow> t < d \<and> d < E"
        by (simp add: dd_def disc_def)
      have eq: "admit_gradual E h beds cgs t st
         = \<lparr>clients = clients st @ [c],
            bed_occupancy = ledger_append (bed_occupancy st) b (t, dd, cl_id c), rnd = w5\<rparr>"
        using True Some c1 c2 c3 c5
        by (cases "?dd < E") (simp_all add: admit_gradual_def r disc_def w4_def dd_def)
      have d: "disc \<longleftrightarrow> dd \<noteq> None" by (simp add: dd_def)
      show ?thesis using find_available_bed_key[OF Some] c5 d rng eq by (rule admit)
    qed
  qed
qed

lemma admit_gradual_inv:
  assumes "home_inv cls0 X h st"
    and "distinct (map cl_id (clients (admit_gradual E h beds cgs t st)))"
  shows "home_inv cls0 X h (admit_gradual E h beds cgs t st)"
proof (cases rule: admit_gradual_cases[of E h beds cgs t st])
  case (skip w)
  then show ?thesis using assms(1) by simp
next
  case (admit b cgv disc dd c w w' w'')
  have "distinct (map cl_id (clients st @ [c]))" using assms(2) admit(5) by simp
  from home_inv_admit[OF assms(1) admit(1,2,3) this, of w'']
  show ?thesis using admit(5) by simp
qed

lemma admit_gradual_ids:
  "\<exists>more. clients (admit_gradual E h beds cgs t st) = clients st @ more"
  by (cases rule: admit_gradual_cases[of E h beds cgs t st]) auto

lemma has_entry_shape:
  assumes "map (\<lambda>(b, occ). (b, map entry_client occ)) led' = map (\<lambda>(b, occ). (b, map entry_client occ)) led"
    and "client_key c' = client_key c"
  shows "has_entry led' c' \<longleftrightarrow> has_entry led c"
proof -
  define sh where "sh = (\<lambda>l::ledger. map (\<lambda>(b, occ). (b, map entry_client occ)) l)"
  have key: "has_entry l x \<longleftrightarrow>
      (\<exists>p\<in>set (sh l). fst p = cl_bedId x \<and> cl_id x \<in> set (snd p))" for l x
    unfolding has_entry_iff sh_def by (force simp: image_iff)
  have "sh led' = sh led" using assms(1) by (simp add: sh_def)
  then show ?thesis unfolding key using assms(2) by (simp add: client_key_def)
qed

lemma hazard_discharges_inv:
  assumes hi: "home_inv cls0 X h st" and d: "distinct (map cl_id (clients st))"
  shows "home_inv cls0 X h (hazard_discharges t st)
     \<and> map client_key (clients (hazard_discharges t st)) = map client_key (clients st)"
proof -
  obtain led' cls' w' where hb: "hazard_beds t (bed_occupancy st) (clients st) (rnd st) = (led', cls', w')"
    by (cases "hazard_beds t (bed_occupancy st) (clients st) (rnd st)") auto
  have res: "hazard_discharges t st = \<lparr>clients = cls', bed_occupancy = led', rnd = w'\<rparr>"
    by (simp add: hazard_discharges_def hb)
  from hi have inv: "ledger_inv (clients st) (X @ entries_of (bed_occupancy st) @ [])"
    and keys: "distinct (map fst (bed_occupancy st))"
    and old: "map client_key (take (length cls0) (clients st)) = map client_key cls0"
    and len: "length cls0 \<le> length (clients st)"
    and new: "list_all (\<lambda>c. cl_homeId c = h \<and> has_entry (bed_occupancy st) c)
                (drop (length cls0) (clients st))"
    unfolding home_inv_def by simp_all
  from hazard_beds_inv[OF hb d inv]
  have k: "map client_key cls' = map client_key (clients st)"
    and sh: "map (\<lambda>(b, occ). (b, map entry_client occ)) led'
               = map (\<lambda>(b, occ). (b, map entry_client occ)) (bed_occupancy st)"
    and i: "ledger_inv cls' (X @ entries_of led')" by simp_all
  have l: "length cls' = length (clients st)" using k by (metis length_map)
  have "map fst (map (\<lambda>(b, occ). (b, map entry_client occ)) led')
          = map fst (map (\<lambda>(b, occ). (b, map entry_client occ)) (bed_occupancy st))"
    using sh by simp
  then have mk: "map fst led' = map fst (bed_occupancy st)"
    by (simp add: case_prod_unfold comp_def)
  have o2: "distinct (map fst led')" using keys mk by simp
  have o3: "map client_key (take (length cls0) cls') = map client_key cls0"
    using old k by (metis take_map)
  have o4: "length cls0 \<le> length cls'" using len l by simp
  have o5: "list_all (\<lambda>c. cl_homeId c = h \<and> has_entry led' c) (drop (length cls0) cls')"
    unfolding list_all_length
  proof (intro allI impI)
    fix n assume n: "n < length (drop (length cls0) cls')"
    let ?c' = "drop (length cls0) cls' ! n" and ?c = "drop (length cls0) (clients st) ! n"
    have n': "n < length (drop (length cls0) (clients st))" using n l by simp
    have "map client_key (drop (length cls0) cls') = map client_key (drop (length cls0) (clients st))"
      using k by (metis drop_map)
    then have kk: "client_key ?c' = client_key ?c" using n n' by (metis nth_map)
    have "cl_homeId ?c = h \<and> has_entry (bed_occupancy st) ?c"
      using new n' unfolding list_all_length by blast
    then show "cl_homeId ?c' = h \<and> has_entry led' ?c'"
      using has_entry_shape[OF sh kk] kk by (simp add: client_key_def)
  qed
  show ?thesis unfolding res home_inv_def using i o2 o3 o4 o5 k by simp
qed

lemma hazard_occupancy_keys:
  "hazard_occupancy t occ cls w = (occ', cls', w') \<Longrightarrow> map client_key cls' = map client_key cls"
proof (induction occ arbitrary: cls w occ' cls' w')
  case Nil
  then show ?case by simp
next
  case (Cons iv occ)
  obtain s e cid where iv: "iv = (s, e, cid)" by (cases iv) auto
  obtain u w0 where u: "random_unit w = (u, w0)" by force
  obtain cls1 w1 where dc: "discharge_client t cid cls w0 = (cls1, w1)" by force
  note k1 = discharge_client_keys[OF dc]
  show ?case
  proof (cases "e = None \<and> days_between t s > 180 \<and> u > 98 / 100")
    case True
    obtain occ1 cls2 w2 where r: "hazard_occupancy t occ cls1 w1 = (occ1, cls2, w2)"
      by (cases "hazard_occupancy t occ cls1 w1") auto
    have "cls' = cls2" using Cons.prems True u dc r by (simp add: iv)
    then show ?thesis using Cons.IH[OF r] k1 by simp
  next
    case False
    obtain occ1 cls2 w2 where r: "hazard_occupancy t occ cls (if e = None \<and> days_between t s > 180 then w0 else w) = (occ1, cls2, w2)"
      by (cases "hazard_occupancy t occ cls (if e = None \<and> days_between t s > 180 then w0 else w)") auto
    have "cls' = cls2" using Cons.prems False u r by (auto simp: iv split: if_splits)
    then show ?thesis using Cons.IH[OF r] by simp
  qed
qed

lemma hazard_beds_keys:
  "hazard_beds t led cls w = (led', cls', w') \<Longrightarrow> map client_key cls' = map client_key cls"
proof (induction led arbitrary: cls w led' cls' w')
  case Nil
  then show ?case by simp
next
  case (Cons bo led)
  obtain b occ where bo: "bo = (b, occ)" by (cases bo) auto
  obtain occ1 cls1 w1 where h: "hazard_occupancy t occ cls w = (occ1, cls1, w1)"
    by (cases "hazard_occupancy t occ cls w") auto
  obtain led1 cls2 w2 where r: "hazard_beds t led cls1 w1 = (led1, cls2, w2)"
    by (cases "hazard_beds t led cls1 w1") auto
  have "cls' = cls2" using Cons.prems h r by (simp add: bo)
  then show ?case using Cons.IH[OF r] hazard_occupancy_keys[OF h] by simp
qed

lemma hazard_discharges_keys:
  "map client_key (clients (hazard_discharges t st)) = map client_key (clients st)"
proof -
  obtain led' cls' w' where hb: "hazard_beds t (bed_occupancy st) (clients st) (rnd st) = (led', cls', w')"
    by (cases "hazard_beds t (bed_occupancy st) (clients st) (rnd st)") auto
  then show ?thesis using hazard_beds_keys[OF hb] by (simp add: hazard_discharges_def)
qed

lemma fill_loop_ids:
  "\<exists>more. map cl_id (clients (fill_loop E h beds cgs t st)) = map cl_id (clients st) @ more"
proof (induction E h beds cgs t st rule: fill_loop.induct)
  case (1 E h beds cgs t st)
  show ?case
  proof (cases "t < E")
    case False
    then show ?thesis by (simp add: fill_loop.simps)
  next
    case True
    define st1 where "st1 = admit_gradual E h beds cgs t st"
    define st2 where "st2 = hazard_discharges t st1"
    obtain step w where r: "randint 7 21 (rnd st2) = (step, w)" by force
    have eq: "fill_loop E h beds cgs t st = fill_loop E h beds cgs (t + days step) (st2\<lparr>rnd := w\<rparr>)"
      using True r by (subst fill_loop.simps) (simp add: st1_def st2_def Let_def)
    obtain m1 where m1: "clients st1 = clients st @ m1"
      using admit_gradual_ids[of E h beds cgs t st] st1_def by auto
    have m2: "map cl_id (clients st2) = map cl_id (clients st1)"
      unfolding st2_def using hazard_discharges_keys[of t st1] by (rule keys_ids)
    obtain m3 where "map cl_id (clients (fill_loop E h beds cgs (t + days step) (st2\<lparr>rnd := w\<rparr>)))
        = map cl_id (clients (st2\<lparr>rnd := w\<rparr>)) @ m3"
      using 1[OF True st1_def st2_def r[symmetric] refl] by blast
    then show ?thesis unfolding eq using m1 m2 by simp
  qed
qed

lemma fill_loop_inv:
  assumes "home_inv cls0 X h st"
    and "distinct (map cl_id (clients (fill_loop E h beds cgs t st)))"
  shows "home_inv cls0 X h (fill_loop E h beds cgs t st)"
  using assms
proof (induction E h beds cgs t st rule: fill_loop.induct)
  case (1 E h beds cgs t st)
  show ?case
  proof (cases "t < E")
    case False
    then show ?thesis using 1(2) by (simp add: fill_loop.simps)
  next
    case True
    define st1 where "st1 = admit_gradual E h beds cgs t st"
    define st2 where "st2 = hazard_discharges t st1"
    obtain step w where r: "randint 7 21 (rnd st2) = (step, w)" by force
    have eq: "fill_loop E h beds cgs t st = fill_loop E h beds cgs (t + days step) (st2\<lparr>rnd := w\<rparr>)"
      using True r by (subst fill_loop.simps) (simp add: st1_def st2_def Let_def)
    have dfin: "distinct (map cl_id (clients (fill_loop E h beds cgs (t + days step) (st2\<lparr>rnd := w\<rparr>))))"
      using 1(3) eq by simp
    obtain m3 where "map cl_id (clients (fill_loop E h beds cgs (t + days step) (st2\<lparr>rnd := w\<rparr>)))
        = map cl_id (clients (st2\<lparr>rnd := w\<rparr>)) @ m3"
      using fill_loop_ids by blast
    then have d2: "distinct (map cl_id (clients st2))" using dfin by simp
    have m2: "map cl_id (clients st2) = map cl_id (clients st1)"
      unfolding st2_def using hazard_discharges_keys[of t st1] by (rule keys_ids)
    have d1: "distinct (map cl_id (clients st1))" using d2 m2 by simp
    have i1: "home_inv cls0 X h st1"
      unfolding st1_def using 1(2) d1[unfolded st1_def] by (rule admit_gradual_inv)
    have i2: "home_inv cls0 X h st2"
      unfolding st2_def using hazard_discharges_inv[OF i1 d1] by simp
    have "home_inv cls0 X h (st2\<lparr>rnd := w\<rparr>)" using i2 by simp
    from 1(1)[OF True st1_def st2_def r[symmetric] refl this dfin]
    show ?thesis unfolding eq .
  qed
qed

lemma admit_initial_funpow_ids:
  "\<exists>more. clients (((admit_initial E h op cgs) ^^ n) st) = clients st @ more"
proof (induction n)
  case 0
  show ?case by simp
next
  case (Suc n)
  then obtain m where m: "clients (((admit_initial E h op cgs) ^^ n) st) = clients st @ m" by blast
  obtain m' where "clients (admit_initial E h op cgs (((admit_initial E h op cgs) ^^ n) st))
       = clients (((admit_initial E h op cgs) ^^ n) st) @ m'"
    using admit_initial_ids by blast
  then show ?case using m by simp
qed

lemma admit_initial_funpow_inv:
  assumes "home_inv cls0 X h st"
    and "distinct (map cl_id (clients (((admit_initial E h op cgs) ^^ n) st)))"
  shows "home_inv cls0 X h (((admit_initial E h op cgs) ^^ n) st)"
  using assms(2)
proof (induction n)
  case 0
  show ?case using assms(1) by simp
next
  case (Suc n)
  let ?s = "((admit_initial E h op cgs) ^^ n) st"
  obtain m' where m: "clients (admit_initial E h op cgs ?s) = clients ?s @ m'"
    using admit_initial_ids by blast
  have d: "distinct (map cl_id (clients (admit_initial E h op cgs ?s)))" using Suc.prems by simp
  then have "distinct (map cl_id (clients ?s))" unfolding m by simp
  then have "home_inv cls0 X h ?s" by (rule Suc.IH)
  then show ?case using admit_initial_inv[OF _ d] by simp
qed

lemma distinct_dict_keys: "distinct (dict_keys xs)"
proof (induction xs rule: dict_keys.induct)
  case 1
  show ?case by simp
next
  case (2 x xs)
  have "set (dict_keys ys) \<subseteq> set ys" for ys :: "'a list"
    by (induction ys rule: dict_keys.induct) auto
  then have "x \<notin> set (dict_keys (filter (\<lambda>y. y \<noteq> x) xs))" by fastforce
  then show ?case using 2 by simp
qed

lemma phase3_home_ids:
  "\<exists>more. map cl_id (clients (phase3_home E h op beds cgs cls w)) = map cl_id cls @ more"
proof -
  obtain n w0 where r: "randint 1 2 w = (n, w0)" by force
  let ?st0 = "\<lparr>clients = cls, bed_occupancy = new_ledger beds, rnd = w0\<rparr>"
  let ?st1 = "((admit_initial E h op cgs) ^^ nat n) ?st0"
  have eq: "phase3_home E h op beds cgs cls w = fill_loop E h beds cgs (op + days 45) ?st1"
    by (simp add: phase3_home_def r)
  obtain m1 where "clients ?st1 = clients ?st0 @ m1" using admit_initial_funpow_ids by blast
  moreover obtain m2 where "map cl_id (clients (fill_loop E h beds cgs (op + days 45) ?st1))
      = map cl_id (clients ?st1) @ m2" using fill_loop_ids by blast
  ultimately show ?thesis unfolding eq by simp
qed

lemma phase3_home_inv:
  assumes inv: "ledger_inv cls X"
    and d: "distinct (map cl_id (clients (phase3_home E h op beds cgs cls w)))"
  shows "home_inv cls X h (phase3_home E h op beds cgs cls w)"
proof -
  obtain n w0 where r: "randint 1 2 w = (n, w0)" by force
  let ?st0 = "\<lparr>clients = cls, bed_occupancy = new_ledger beds, rnd = w0\<rparr>"
  let ?st1 = "((admit_initial E h op cgs) ^^ nat n) ?st0"
  have eq: "phase3_home E h op beds cgs cls w = fill_loop E h beds cgs (op + days 45) ?st1"
    by (simp add: phase3_home_def r)
  have e0: "entries_of (new_ledger beds) = []"
    by (simp add: entries_of_def new_ledger_def comp_def)
  have k0: "map fst (new_ledger beds) = dict_keys beds"
    by (simp add: new_ledger_def comp_def)
  have i0: "home_inv cls X h ?st0"
    unfolding home_inv_def using inv e0 k0 distinct_dict_keys by simp
  obtain m2 where "map cl_id (clients (fill_loop E h beds cgs (op + days 45) ?st1))
      = map cl_id (clients ?st1) @ m2" using fill_loop_ids by blast
  then have d1: "distinct (map cl_id (clients ?st1))" using d unfolding eq by simp
  have i1: "home_inv cls X h ?st1" using i0 d1 by (rule admit_initial_funpow_inv)
  show ?thesis unfolding eq using i1 d[unfolded eq] by (rule fill_loop_inv)
qed

lemma phase3_ids:
  "phase3 E homes cls w = (cls', L, w') \<Longrightarrow> \<exists>more. map cl_id cls' = map cl_id cls @ more"
proof (induction homes arbitrary: cls w cls' L w')
  case Nil
  then show ?case by simp
next
  case (Cons hm homes)
  obtain h op beds cgs where hm: "hm = (h, op, beds, cgs)" by (cases hm) auto
  let ?st = "phase3_home E h op beds cgs cls w"
  obtain cls2 L2 w2 where r: "phase3 E homes (clients ?st) (rnd ?st) = (cls2, L2, w2)"
    by (cases "phase3 E homes (clients ?st) (rnd ?st)") auto
  have "cls' = cls2" using Cons.prems r by (simp add: hm Let_def)
  moreover obtain m1 where "map cl_id (clients ?st) = map cl_id cls @ m1"
    using phase3_home_ids by blast
  moreover obtain m2 where "map cl_id cls2 = map cl_id (clients ?st) @ m2"
    using Cons.IH[OF r] by blast
  ultimately show ?case by simp
qed

lemma has_entry_key: "client_key c' = client_key c \<Longrightarrow> has_entry led c' = has_entry led c"
  by (simp add: has_entry_def client_key_def)

lemma phase3_inv:
  assumes "ledger_inv cls X" "phase3 E homes cls w = (cls', L, w')" "distinct (map cl_id cls')"
  shows "ledger_inv cls' (X @ concat (map (\<lambda>(h, led). entries_of led) L))
     \<and> length cls \<le> length cls'
     \<and> map client_key (take (length cls) cls') = map client_key cls
     \<and> (\<forall>c\<in>set (drop (length cls) cls'). \<exists>led. (cl_homeId c, led) \<in> set L \<and> has_entry led c)"
  using assms
proof (induction homes arbitrary: cls X w cls' L w')
  case Nil
  then show ?case by simp
next
  case (Cons hm homes)
  obtain h op beds cgs where hm: "hm = (h, op, beds, cgs)" by (cases hm) auto
  let ?st = "phase3_home E h op beds cgs cls w"
  obtain cls2 L2 w2 where r: "phase3 E homes (clients ?st) (rnd ?st) = (cls2, L2, w2)"
    by (cases "phase3 E homes (clients ?st) (rnd ?st)") auto
  have res: "cls' = cls2" "L = (h, bed_occupancy ?st) # L2"
    using Cons.prems(2) r by (simp_all add: hm Let_def)
  obtain m2 where m2: "map cl_id cls2 = map cl_id (clients ?st) @ m2"
    using phase3_ids[OF r] by blast
  have d2: "distinct (map cl_id cls2)" using Cons.prems(3) res by simp
  then have d1: "distinct (map cl_id (clients ?st))" unfolding m2 by simp
  have hi: "home_inv cls X h ?st" using Cons.prems(1) d1 by (rule phase3_home_inv)
  then have i1: "ledger_inv (clients ?st) (X @ entries_of (bed_occupancy ?st))"
    and o1: "map client_key (take (length cls) (clients ?st)) = map client_key cls"
    and l1: "length cls \<le> length (clients ?st)"
    and n1: "\<forall>c\<in>set (drop (length cls) (clients ?st)). cl_homeId c = h \<and> has_entry (bed_occupancy ?st) c"
    unfolding home_inv_def list_all_iff by blast+
  from Cons.IH[OF i1 r d2]
  have i2: "ledger_inv cls2 ((X @ entries_of (bed_occupancy ?st)) @ concat (map (\<lambda>(h, led). entries_of led) L2))"
    and l2: "length (clients ?st) \<le> length cls2"
    and o2: "map client_key (take (length (clients ?st)) cls2) = map client_key (clients ?st)"
    and n2: "\<forall>c\<in>set (drop (length (clients ?st)) cls2). \<exists>led. (cl_homeId c, led) \<in> set L2 \<and> has_entry led c"
    by blast+
  have g1: "ledger_inv cls' (X @ concat (map (\<lambda>(h, led). entries_of led) L))"
    using i2 res by simp
  have g2: "length cls \<le> length cls'" using l1 l2 res by simp
  have "take (length cls) cls2 = take (length cls) (take (length (clients ?st)) cls2)"
    using l1 by (simp add: min_def)
  then have "map client_key (take (length cls) cls2)
      = take (length cls) (map client_key (take (length (clients ?st)) cls2))"
    by (simp add: take_map)
  also have "\<dots> = take (length cls) (map client_key (clients ?st))" using o2 by simp
  also have "\<dots> = map client_key cls" using o1 by (simp add: take_map)
  finally have g3: "map client_key (take (length cls) cls') = map client_key cls" using res by simp
  have g4: "\<forall>c\<in>set (drop (length cls) cls'). \<exists>led. (cl_homeId c, led) \<in> set L \<and> has_entry led c"
  proof
    fix c assume "c \<in> set (drop (length cls) cls')"
    then obtain j where j: "j < length cls2" "length cls \<le> j" "c = cls2 ! j"
      unfolding res(1) in_set_conv_nth by (auto simp: less_diff_conv add.commute)
    show "\<exists>led. (cl_homeId c, led) \<in> set L \<and> has_entry led c"
    proof (cases "j < length (clients ?st)")
      case True
      let ?c1 = "clients ?st ! j"
      have "map client_key (take (length (clients ?st)) cls2) ! j = map client_key (clients ?st) ! j"
        using o2 by simp
      then have kk: "client_key c = client_key ?c1" using True j l2 by simp
      have "?c1 \<in> set (drop (length cls) (clients ?st))"
        using True j(2) unfolding in_set_conv_nth
        by (intro exI[of _ "j - length cls"]) auto
      then have "cl_homeId ?c1 = h \<and> has_entry (bed_occupancy ?st) ?c1" using n1 by blast
      then have "cl_homeId c = h \<and> has_entry (bed_occupancy ?st) c"
        using kk has_entry_key[OF kk] by (simp add: client_key_def)
      then show ?thesis unfolding res(2) by auto
    next
      case False
      then have "c \<in> set (drop (length (clients ?st)) cls2)"
        using j unfolding in_set_conv_nth
        by (intro exI[of _ "j - length (clients ?st)"]) auto
      then show ?thesis using n2 unfolding res(2) by auto
    qed
  qed
  show ?case using g1 g2 g3 g4 by blast
qed

section \<open>The claims\<close>

text \<open>
  C10. Every incident that \<open>generate\<close> returns carries one, two or three photos; their
  \<open>displayOrder\<close> values are \<open>0, 1, \<dots>\<close> in list order; their source files are
  pairwise different files of the pool of seven images.
\<close>

theorem incident_photos_one_to_three_ordered_distinct:
  "\<exists>inc g' w'. incident_generate g h c r t hs adm w = Some (inc, g', w')
     \<and> 1 \<le> length (inc_photos inc) \<and> length (inc_photos inc) \<le> 3
     \<and> map ph_displayOrder (inc_photos inc) = [0 ..< length (inc_photos inc)]
     \<and> distinct (map ph_sourceFile (inc_photos inc))
     \<and> set (map ph_sourceFile (inc_photos inc)) \<subseteq> set INCIDENT_IMAGES
     \<and> length INCIDENT_IMAGES = 7"
proof -
  obtain inc g' w' wp where
    res: "incident_generate g h c r t hs adm w = Some (inc, g', w')"
    and ph: "inc_photos inc = fst (generate_photos (inc_id inc) h r t wp)"
    by (rule incident_generate_result[of g h c r t hs adm w]) (rule that; assumption)
  have "length INCIDENT_IMAGES = 7" by (simp add: INCIDENT_IMAGES_def)
  then show ?thesis
    using res generate_photos_props[of "inc_id inc" h r t wp] unfolding ph[symmetric]
    by blast
qed

text \<open>
  C6 (amended). \<open>generate\<close> always returns an incident, with or without an admin pool.
  \<open>updatedAt\<close> is present exactly when the status is not Draft; \<open>closedAt\<close>,
  \<open>closedById\<close> and \<open>closureNotes\<close> are present exactly when it is Closed. A closed
  incident has \<open>closedAt\<close> one to seven days after the occurrence and \<open>updatedAt\<close>
  equal to \<open>closedAt\<close>; a submitted incident or one under review has \<open>updatedAt\<close> one to
  twenty-four hours after the occurrence. Without an admin pool (none given, or an empty
  one) the closer is the reporter.
\<close>

theorem incident_status_fields_coherent:
  "\<exists>inc g' w'. incident_generate g h c r t hs adm w = Some (inc, g', w')
     \<and> inc_status inc \<in> {''Closed'', ''UnderReview'', ''Submitted'', ''Draft''}
     \<and> (inc_updatedAt inc \<noteq> None \<longleftrightarrow> inc_status inc \<noteq> ''Draft'')
     \<and> (inc_closedAt inc \<noteq> None \<longleftrightarrow> inc_status inc = ''Closed'')
     \<and> (inc_closedById inc \<noteq> None \<longleftrightarrow> inc_status inc = ''Closed'')
     \<and> (inc_closureNotes inc \<noteq> None \<longleftrightarrow> inc_status inc = ''Closed'')
     \<and> (inc_status inc = ''Closed'' \<longrightarrow>
           inc_updatedAt inc = inc_closedAt inc
           \<and> (\<exists>d. 1 \<le> d \<and> d \<le> 7 \<and> inc_closedAt inc = Some (inc_occurredAt inc + days d)))
     \<and> (inc_status inc \<noteq> ''Closed'' \<and> inc_status inc \<noteq> ''Draft'' \<longrightarrow>
           (\<exists>k. 1 \<le> k \<and> k \<le> 24 \<and> inc_updatedAt inc = Some (inc_occurredAt inc + hours k)))
     \<and> (inc_status inc = ''Closed'' \<and> (adm = None \<or> adm = Some []) \<longrightarrow>
           inc_closedById inc = Some r)"
proof -
  obtain inc g' w' wp where
    res: "incident_generate g h c r t hs adm w = Some (inc, g', w')"
    and st: "inc_status inc \<in> fst ` set status_weights"
    and occ: "inc_occurredAt inc = t"
    and draft: "inc_status inc = ''Draft'' \<Longrightarrow>
       inc_updatedAt inc = None \<and> inc_closedAt inc = None \<and> inc_closureNotes inc = None
       \<and> inc_closedById inc = None"
    and mid: "inc_status inc \<noteq> ''Draft'' \<Longrightarrow> inc_status inc \<noteq> ''Closed'' \<Longrightarrow>
       (\<exists>k. 1 \<le> k \<and> k \<le> 24 \<and> inc_updatedAt inc = Some (t + hours k))
       \<and> inc_closedAt inc = None \<and> inc_closureNotes inc = None \<and> inc_closedById inc = None"
    and closed: "inc_status inc = ''Closed'' \<Longrightarrow>
       (\<exists>d. 1 \<le> d \<and> d \<le> 7 \<and> inc_closedAt inc = Some (t + days d))
       \<and> inc_updatedAt inc = inc_closedAt inc
       \<and> inc_closureNotes inc = Some ''Investigation complete. Preventive measures implemented.''
       \<and> (\<exists>u. inc_closedById inc = Some u
             \<and> (case adm of None \<Rightarrow> u = r | Some ids \<Rightarrow> if ids \<noteq> [] then u \<in> set ids else u = r))"
    by (rule incident_generate_result[of g h c r t hs adm w]) (rule that; (assumption | blast))
  have st4: "inc_status inc \<in> {''Closed'', ''UnderReview'', ''Submitted'', ''Draft''}"
    using st by (simp add: status_weights_def)
  consider (d) "inc_status inc = ''Draft''" | (c) "inc_status inc = ''Closed''"
    | (m) "inc_status inc \<noteq> ''Draft''" "inc_status inc \<noteq> ''Closed''" by blast
  then have "(inc_updatedAt inc \<noteq> None \<longleftrightarrow> inc_status inc \<noteq> ''Draft'')
     \<and> (inc_closedAt inc \<noteq> None \<longleftrightarrow> inc_status inc = ''Closed'')
     \<and> (inc_closedById inc \<noteq> None \<longleftrightarrow> inc_status inc = ''Closed'')
     \<and> (inc_closureNotes inc \<noteq> None \<longleftrightarrow> inc_status inc = ''Closed'')
     \<and> (inc_status inc = ''Closed'' \<longrightarrow>
           inc_updatedAt inc = inc_closedAt inc
           \<and> (\<exists>d. 1 \<le> d \<and> d \<le> 7 \<and> inc_closedAt inc = Some (inc_occurredAt inc + days d)))
     \<and> (inc_status inc \<noteq> ''Closed'' \<and> inc_status inc \<noteq> ''Draft'' \<longrightarrow>
           (\<exists>k. 1 \<le> k \<and> k \<le> 24 \<and> inc_updatedAt inc = Some (inc_occurredAt inc + hours k)))
     \<and> (inc_status inc = ''Closed'' \<and> (adm = None \<or> adm = Some []) \<longrightarrow>
           inc_closedById inc = Some r)"
  proof cases
    case d
    then show ?thesis using draft by simp
  next
    case c
    then show ?thesis using closed[OF c] occ by auto
  next
    case m
    then show ?thesis using mid[OF m] occ by auto
  qed
  then show ?thesis using res st4 by blast
qed

theorem incident_status_fields_coherent_witness:
  "\<exists>inc g' w'.
     incident_generate new_incident_generator 7 (Some 9) 3 1000 (Some 1) None
       \<lparr>tape = [0, 1, 2, 0, 0, 0, 0, 5, 2, 2, 1, 1, 77, 2, 88, 3, 99, 0],
        entropy = [100, 101, 102, 103]\<rparr> = Some (inc, g', w')
     \<and> inc_status inc = ''Closed'' \<and> inc_closedById inc = Some 3
     \<and> inc_updatedAt inc = inc_closedAt inc \<and> inc_updatedAt inc \<noteq> None"
proof -
  let ?run = "incident_generate new_incident_generator 7 (Some 9) 3 1000 (Some 1) None
       \<lparr>tape = [0, 1, 2, 0, 0, 0, 0, 5, 2, 2, 1, 1, 77, 2, 88, 3, 99, 0],
        entropy = [100, 101, 102, 103]\<rparr>"
  have ev: "map_option (inc_status \<circ> fst) ?run = Some ''Closed''" by code_simp
  show ?thesis
    using incident_status_fields_coherent[of new_incident_generator 7 "Some 9" 3 1000 "Some 1" None
       "\<lparr>tape = [0, 1, 2, 0, 0, 0, 0, 5, 2, 2, 1, 1, 77, 2, 88, 3, 99, 0],
        entropy = [100, 101, 102, 103]\<rparr>"] ev
    by auto
qed

theorem closed_incident_updated_after_days_counterexample:
  "map_option (inc_status \<circ> fst)
     (incident_generate new_incident_generator 7 (Some 9) 3 1000 (Some 1) (Some [42])
       \<lparr>tape = [0, 1, 2, 0, 0, 0, 0, 5, 2, 0, 2, 1, 1, 77, 2, 88, 3, 99, 0],
        entropy = [100, 101, 102, 103]\<rparr>) = Some ''Closed''
   \<and> map_option (inc_updatedAt \<circ> fst)
     (incident_generate new_incident_generator 7 (Some 9) 3 1000 (Some 1) (Some [42])
       \<lparr>tape = [0, 1, 2, 0, 0, 0, 0, 5, 2, 0, 2, 1, 1, 77, 2, 88, 3, 99, 0],
        entropy = [100, 101, 102, 103]\<rparr>) = Some (Some (1000 + days 3))
   \<and> 1000 + hours 24 < 1000 + days 3"
  by code_simp

text \<open>
  C4. The identifiers of the records come from \<open>uuid.uuid4\<close>, which the seed does not
  reach: two calls of \<open>generate\<close> with the same generator state, the same arguments, the
  same clock value and the same seeded stream return incidents with different \<open>id\<close>s
  when the operating system hands out different entropy.
\<close>

theorem same_seed_different_ids:
  "map_option (inc_id \<circ> fst)
     (incident_generate new_incident_generator 7 (Some 9) 3 1000 (Some 1) (Some [42])
       \<lparr>tape = [0, 1, 2, 0, 0, 0, 0, 5, 2, 0, 2, 1, 1, 77, 2, 88, 3, 99, 0],
        entropy = [100, 101, 102, 103]\<rparr>) = Some 100
   \<and> map_option (inc_id \<circ> fst)
     (incident_generate new_incident_generator 7 (Some 9) 3 1000 (Some 1) (Some [42])
       \<lparr>tape = [0, 1, 2, 0, 0, 0, 0, 5, 2, 0, 2, 1, 1, 77, 2, 88, 3, 99, 0],
        entropy = [200, 201, 202, 203]\<rparr>) = Some 200"
  by code_simp




text \<open>
  C9. On a fresh generator, any sequence of fewer than \<open>36\<^sup>4\<close> calls of \<open>generate\<close> (with
  home sequences below \<open>36\<^sup>2\<close>) returns one incident per call; the Sequence component of
  each incident number is the base-36 encoding, zero-padded to four characters, of the
  number of incidents generated so far for the same home, that incident included; so it
  is \<open>0001\<close> for the first incident of a home and one more on each later call for that
  home, and of two incidents of one home the later one has the strictly greater Sequence
  component in the lexicographic order of strings.
\<close>

theorem sequence_component_counts_calls_per_home:
  assumes "\<forall>call \<in> set calls. hs_ok (fst (snd (snd (snd (snd call)))))"
    and "int (length calls) < 36 ^ 4"
  shows "\<exists>incs g' w'. generate_calls new_incident_generator calls w = Some (incs, g', w')
     \<and> length incs = length calls
     \<and> (\<forall>b < length incs. sequence_component (inc_incidentNumber (incs ! b))
           = upper (zfill 4 (to_base36 (int (length (filter
               (\<lambda>i. inc_homeId i = inc_homeId (incs ! b)) (take (Suc b) incs)))))))
     \<and> (\<forall>a b. a < b \<and> b < length incs \<and> inc_homeId (incs ! a) = inc_homeId (incs ! b) \<longrightarrow>
           (sequence_component (inc_incidentNumber (incs ! a)),
            sequence_component (inc_incidentNumber (incs ! b))) \<in> lexord char_less)"
proof -
  let ?g = new_incident_generator
  have ok: "seq_ok ?g" by (simp add: seq_ok_def new_incident_generator_def)
  have c0: "count0 ?g h = 0" for h by (simp add: count0_def new_incident_generator_def)
  have bound: "\<forall>h. 0 \<le> count0 ?g h \<and> count0 ?g h + int (length calls) < 36 ^ 4"
    using assms(2) c0 by simp
  obtain incs g' w' where
    run: "generate_calls ?g calls w = Some (incs, g', w')"
    and homes: "map inc_homeId incs = map fst calls"
    and seqs: "\<forall>b < length incs. sequence_component (inc_incidentNumber (incs ! b))
          = upper (zfill 4 (to_base36 (count0 ?g (inc_homeId (incs ! b))
              + int (length (filter (\<lambda>i. inc_homeId i = inc_homeId (incs ! b)) (take (Suc b) incs))))))"
    using generate_calls_sequence[OF ok assms(1) bound, of w] by blast
  have len: "length incs = length calls" using arg_cong[OF homes, of length] by simp
  let ?n = "\<lambda>b. length (filter (\<lambda>i. inc_homeId i = inc_homeId (incs ! b)) (take (Suc b) incs))"
  have s: "sequence_component (inc_incidentNumber (incs ! b)) = upper (zfill 4 (to_base36 (int (?n b))))"
    if "b < length incs" for b using seqs[rule_format, OF that] c0 by simp
  have m: "(sequence_component (inc_incidentNumber (incs ! a)),
            sequence_component (inc_incidentNumber (incs ! b))) \<in> lexord char_less"
    if "a < b" "b < length incs" "inc_homeId (incs ! a) = inc_homeId (incs ! b)" for a b
  proof -
    have "?n a < ?n b"
      using count_prefix_less[OF that(1,2), of "\<lambda>i. inc_homeId i = inc_homeId (incs ! b)"] that(3)
      by simp
    moreover have "?n b \<le> length incs"
      by (rule order_trans[OF length_filter_le]) simp
    ultimately have "0 \<le> int (?n a)" "int (?n a) < int (?n b)" "int (?n b) < 36 ^ 4"
      using assms(2) len by simp_all
    then have "(upper (zfill 4 (to_base36 (int (?n a)))), upper (zfill 4 (to_base36 (int (?n b)))))
         \<in> lexord {(x, y). (of_char x :: nat) < of_char y}"
      by (rule field_increasing)
    then show ?thesis using s[of a] s[of b] that by (simp add: char_less_def)
  qed
  have s': "\<forall>b < length incs. sequence_component (inc_incidentNumber (incs ! b))
           = upper (zfill 4 (to_base36 (int (length (filter
               (\<lambda>i. inc_homeId i = inc_homeId (incs ! b)) (take (Suc b) incs))))))"
    by (intro allI impI) (rule s)
  have m': "\<forall>a b. a < b \<and> b < length incs \<and> inc_homeId (incs ! a) = inc_homeId (incs ! b) \<longrightarrow>
           (sequence_component (inc_incidentNumber (incs ! a)),
            sequence_component (inc_incidentNumber (incs ! b))) \<in> lexord char_less"
    by (intro allI impI, elim conjE) (rule m)
  show ?thesis
    by (rule exI[of _ incs], rule exI[of _ g'], rule exI[of _ w'])
       (intro conjI run len s' m')
qed

theorem sequence_component_counts_calls_per_home_witness:
  "\<exists>incs g' w'.
     generate_calls new_incident_generator
       [(7, None, 3, 1000, Some 1, None), (8, None, 3, 2000, Some 2, None),
        (7, None, 3, 3000, Some 1, None)] \<lparr>tape = [], entropy = []\<rparr> = Some (incs, g', w')
     \<and> sequence_component (inc_incidentNumber (incs ! 0)) = ''0001''
     \<and> sequence_component (inc_incidentNumber (incs ! 1)) = ''0001''
     \<and> sequence_component (inc_incidentNumber (incs ! 2)) = ''0002''
     \<and> (sequence_component (inc_incidentNumber (incs ! 0)),
         sequence_component (inc_incidentNumber (incs ! 2))) \<in> lexord char_less"
proof -
  let ?calls = "[(7, None, 3, 1000, Some 1, None), (8, None, 3, 2000, Some 2, None),
        (7, None, 3, 3000, Some 1, None)] :: incident_call list"
  let ?w = "\<lparr>tape = [], entropy = []\<rparr>"
  have h1: "\<forall>call \<in> set ?calls. hs_ok (fst (snd (snd (snd (snd call)))))"
    by (simp add: hs_ok_def)
  have h2: "int (length ?calls) < 36 ^ 4" by simp
  obtain incs g' w' where
    run: "generate_calls new_incident_generator ?calls ?w = Some (incs, g', w')"
    and m: "\<forall>a b. a < b \<and> b < length incs \<and> inc_homeId (incs ! a) = inc_homeId (incs ! b) \<longrightarrow>
           (sequence_component (inc_incidentNumber (incs ! a)),
            sequence_component (inc_incidentNumber (incs ! b))) \<in> lexord char_less"
    using sequence_component_counts_calls_per_home[OF h1 h2, of ?w] by blast
  have ev: "map_option (\<lambda>r. map (\<lambda>i. (inc_homeId i, sequence_component (inc_incidentNumber i))) (fst r))
              (generate_calls new_incident_generator ?calls ?w)
            = Some [(7, ''0001''), (8, ''0001''), (7, ''0002'')]"
    by code_simp
  then have vals: "map (\<lambda>i. (inc_homeId i, sequence_component (inc_incidentNumber i))) incs
      = [(7, ''0001''), (8, ''0001''), (7, ''0002'')]"
    using run by simp
  have l: "length incs = 3" using arg_cong[OF vals, of length] by simp
  have e: "(inc_homeId (incs ! 0), sequence_component (inc_incidentNumber (incs ! 0))) = (7, ''0001'')"
    "(inc_homeId (incs ! 1), sequence_component (inc_incidentNumber (incs ! 1))) = (8, ''0001'')"
    "(inc_homeId (incs ! 2), sequence_component (inc_incidentNumber (incs ! 2))) = (7, ''0002'')"
    using arg_cong[OF vals, of "\<lambda>xs. xs ! 0"] arg_cong[OF vals, of "\<lambda>xs. xs ! 1"]
      arg_cong[OF vals, of "\<lambda>xs. xs ! 2"] l by simp_all
  have "(0::nat) < 2 \<and> 2 < length incs \<and> inc_homeId (incs ! 0) = inc_homeId (incs ! 2)"
    using l e by simp
  then have "(sequence_component (inc_incidentNumber (incs ! 0)),
            sequence_component (inc_incidentNumber (incs ! 2))) \<in> lexord char_less"
    by (rule m[rule_format])
  then show ?thesis using run e
    by (intro exI[of _ incs] exI[of _ g'] exI[of _ w']) (simp del: lexord_cons_cons)
qed

text \<open>
  C8 (amended). The counter behind the Sequence component counts the incidents of a
  home whatever their type. In any run of calls of \<open>generate\<close> on a fresh generator, in
  which the calls for a home pass the home sequence 1, the third incident generated for
  that home, when it is a Fall, has the number \<open>FIR010003X\<close>: the type code \<open>F\<close>, \<open>IR\<close>,
  the home code \<open>01\<close> and the Sequence \<open>0003\<close>, followed by the Luhn mod-36 check
  character of \<open>FIR010003\<close>, which is \<open>X\<close>. Calls for other homes may come in between.
  The third Fall incident of the home is numbered so only when no incident of another
  type was generated for the home before it: after a Medication incident, the third Fall
  incident of the home is its fourth incident and has the number \<open>FIR010004V\<close>.
\<close>

theorem third_incident_of_home_one_when_fall:
  assumes "generate_calls new_incident_generator calls w = Some (incs, g', w')"
    and "\<forall>(home_id, client_id, reporter_id, occurred_at, home_sequence, admin_user_ids) \<in> set calls.
           home_id = h \<longrightarrow> home_sequence = Some 1"
    and "b < length incs" and "inc_homeId (incs ! b) = h"
    and "length (filter (\<lambda>i. inc_homeId i = h) (take (Suc b) incs)) = 3"
    and "inc_incidentType (incs ! b) = ''Fall''"
  shows "take 9 (inc_incidentNumber (incs ! b)) = ''FIR010003''
     \<and> calculate_luhn_mod36_checksum ''FIR010003'' = Some (inc_incidentNumber (incs ! b) ! 9)
     \<and> inc_incidentNumber (incs ! b) = ''FIR010003X''"
proof -
  let ?g = new_incident_generator
  have m0: "home_sequence_map ?g h = None \<or> home_sequence_map ?g h = Some 1"
    by (simp add: new_incident_generator_def)
  have c0: "count0 ?g h = 0" by (simp add: count0_def new_incident_generator_def)
  obtain incs0 g0 w0 where
    run: "generate_calls ?g calls w = Some (incs0, g0, w0)"
    and nums: "\<forall>b < length incs0. inc_homeId (incs0 ! b) = h \<longrightarrow>
          (\<exists>gb. home_sequence_map gb h = Some 1
             \<and> generate_incident_number gb h (inc_incidentType (incs0 ! b))
                  (count0 ?g h + int (length (filter (\<lambda>i. inc_homeId i = h) (take (Suc b) incs0))))
                = Some (inc_incidentNumber (incs0 ! b)))"
    using generate_calls_number[OF assms(2) m0, of w] by blast
  have eq: "incs0 = incs" using run assms(1) by simp
  obtain gb where gb: "home_sequence_map gb h = Some 1"
    and n: "generate_incident_number gb h ''Fall'' 3 = Some (inc_incidentNumber (incs ! b))"
    using nums[rule_format, of b] assms(3,4,5,6) c0 unfolding eq by auto
  have f1: "get_incident_type_code ''Fall'' = ''F''" by code_simp
  have f2: "upper (zfill 2 (to_base36 1)) = ''01''" by code_simp
  have f3: "upper (zfill 4 (to_base36 3)) = ''0003''" by code_simp
  have f4: "calculate_luhn_mod36_checksum ''FIR010003'' = Some (CHR ''X'')" by code_simp
  have "generate_incident_number gb h ''Fall'' 3 = Some ''FIR010003X''"
    unfolding generate_incident_number_def Let_def gb option.case f1 f2 f3 using f4 by simp
  then have "inc_incidentNumber (incs ! b) = ''FIR010003X''" using n by simp
  then show ?thesis using f4 by simp
qed

theorem third_incident_of_home_one_when_fall_witness:
  "\<exists>incs g' w'.
     generate_calls new_incident_generator
       [(7, None, 3, 1000, Some 1, None), (8, None, 4, 1500, Some 2, None),
        (7, None, 3, 2000, Some 1, None), (7, None, 3, 3000, Some 1, None),
        (7, None, 3, 4000, Some 1, None)] \<lparr>tape = [], entropy = []\<rparr> = Some (incs, g', w')
     \<and> map inc_homeId incs = [7, 8, 7, 7, 7]
     \<and> inc_incidentType (incs ! 3) = ''Fall''
     \<and> inc_incidentNumber (incs ! 3) = ''FIR010003X''"
proof -
  let ?calls = "[(7, None, 3, 1000, Some 1, None), (8, None, 4, 1500, Some 2, None),
        (7, None, 3, 2000, Some 1, None), (7, None, 3, 3000, Some 1, None),
        (7, None, 3, 4000, Some 1, None)] :: incident_call list"
  let ?w = "\<lparr>tape = [], entropy = []\<rparr>"
  have ev: "map_option (\<lambda>r. map (\<lambda>i. (inc_homeId i, inc_incidentType i)) (fst r))
              (generate_calls new_incident_generator ?calls ?w)
            = Some [(7, ''Fall''), (8, ''Fall''), (7, ''Fall''), (7, ''Fall''), (7, ''Fall'')]"
    by code_simp
  then obtain incs g' w' where
    run: "generate_calls new_incident_generator ?calls ?w = Some (incs, g', w')"
    and tys: "map (\<lambda>i. (inc_homeId i, inc_incidentType i)) incs
           = [(7, ''Fall''), (8, ''Fall''), (7, ''Fall''), (7, ''Fall''), (7, ''Fall'')]"
    by (cases "generate_calls new_incident_generator ?calls ?w") auto
  have len: "length incs = 5" using arg_cong[OF tys, of length] by simp
  have hms: "map inc_homeId incs = [7, 8, 7, 7, 7]"
    using arg_cong[OF tys, of "map fst"] by (simp add: comp_def)
  have fall: "inc_incidentType (incs ! 3) = ''Fall''"
    using arg_cong[OF tys, of "\<lambda>xs. snd (xs ! 3)"] len by simp
  have hm: "inc_homeId (incs ! 3) = 7"
    using arg_cong[OF tys, of "\<lambda>xs. fst (xs ! 3)"] len by simp
  have hyp: "\<forall>(home_id, client_id, reporter_id, occurred_at, home_sequence, admin_user_ids) \<in> set ?calls.
           home_id = 7 \<longrightarrow> home_sequence = Some 1" by simp
  have b: "(3::nat) < length incs" using len by simp
  have cnt: "length (filter (\<lambda>i. inc_homeId i = 7) (take (Suc 3) incs)) = 3"
  proof -
    have "length (filter (\<lambda>i. inc_homeId i = 7) (take (Suc 3) incs))
        = length (filter (\<lambda>x. x = 7) (map inc_homeId (take (Suc 3) incs)))"
      by (simp add: filter_map comp_def)
    also have "map inc_homeId (take (Suc 3) incs) = take (Suc 3) (map inc_homeId incs)"
      by (simp add: take_map)
    also have "\<dots> = [7, 8, 7, 7]" unfolding hms by simp
    finally show ?thesis by simp
  qed
  have "inc_incidentNumber (incs ! 3) = ''FIR010003X''"
    using third_incident_of_home_one_when_fall[OF run hyp b hm cnt fall] by simp
  then show ?thesis using run fall hms
    by (intro exI[of _ incs] exI[of _ g'] exI[of _ w']) simp
qed

theorem third_fall_after_medication_counterexample:
  "\<exists>incs g' w'.
     generate_calls new_incident_generator
       [(7, None, 3, 1000, Some 1, None), (7, None, 3, 2000, Some 1, None),
        (7, None, 3, 3000, Some 1, None), (7, None, 3, 4000, Some 1, None)]
       \<lparr>tape = [1], entropy = []\<rparr> = Some (incs, g', w')
     \<and> map inc_incidentType incs = [''Medication'', ''Fall'', ''Fall'', ''Fall'']
     \<and> map inc_incidentNumber incs = [''MIR010001M'', ''FIR010002Z'', ''FIR010003X'', ''FIR010004V'']
     \<and> inc_incidentNumber (filter (\<lambda>i. inc_incidentType i = ''Fall'') incs ! 2) = ''FIR010004V''"
proof -
  let ?calls = "[(7, None, 3, 1000, Some 1, None), (7, None, 3, 2000, Some 1, None),
        (7, None, 3, 3000, Some 1, None), (7, None, 3, 4000, Some 1, None)] :: incident_call list"
  let ?w = "\<lparr>tape = [1], entropy = []\<rparr>"
  have ev: "map_option (\<lambda>r. (map inc_incidentType (fst r), map inc_incidentNumber (fst r),
                inc_incidentNumber (filter (\<lambda>i. inc_incidentType i = ''Fall'') (fst r) ! 2)))
              (generate_calls new_incident_generator ?calls ?w)
            = Some ([''Medication'', ''Fall'', ''Fall'', ''Fall''],
                    [''MIR010001M'', ''FIR010002Z'', ''FIR010003X'', ''FIR010004V''], ''FIR010004V'')"
    by code_simp
  then obtain incs g' w' where
    run: "generate_calls new_incident_generator ?calls ?w = Some (incs, g', w')"
    and r: "map inc_incidentType incs = [''Medication'', ''Fall'', ''Fall'', ''Fall'']"
      "map inc_incidentNumber incs = [''MIR010001M'', ''FIR010002Z'', ''FIR010003X'', ''FIR010004V'']"
      "inc_incidentNumber (filter (\<lambda>i. inc_incidentType i = ''Fall'') incs ! 2) = ''FIR010004V''"
    by (cases "generate_calls new_incident_generator ?calls ?w") auto
  show ?thesis using run r
    by (intro exI[of _ incs] exI[of _ g'] exI[of _ w']) simp
qed

text \<open>
  C1. A home that opens 600 days after the start with four beds draws two initial
  clients; the first is admitted 20 days after the opening into the first bed, the second
  5 days after the opening. On that earlier date no interval of the first bed covers the
  date, so \<open>find_available_bed\<close> returns the first bed again: at the end of phase 3 both
  clients are active in the same bed, whose ledger holds two open intervals.
\<close>

theorem initial_clients_share_a_bed:
  "bed_occupancy
     (phase3_home (days 20760) 1 (days 20630) [11, 12, 13, 14] [21, 22] []
        \<lparr>tape = [1, 20, 0, 5, 1], entropy = [101, 102]\<rparr>)
     = [(11, [(days 20650, None, 101), (days 20635, None, 102)]), (12, []), (13, []), (14, [])]
   \<and> map (\<lambda>c. (cl_id c, cl_bedId c, cl_isActive c, cl_dischargeDate c))
       (clients
         (phase3_home (days 20760) 1 (days 20630) [11, 12, 13, 14] [21, 22] []
            \<lparr>tape = [1, 20, 0, 5, 1], entropy = [101, 102]\<rparr>))
     = [(101, 11, True, None), (102, 11, True, None)]"
  by code_simp

text \<open>
  C5. A client of home 1 is admitted on day 20675 and discharged on day 20736. In the
  week that starts on day 20735 the client still counts as active, and the list of
  active clients computed for the start of the week is used for every activity of the
  week: the first activity of that week falls six days later, on day 20741, five days
  after the discharge, and the client is recorded as its participant.
\<close>

theorem participant_discharged_before_activity:
  "map (\<lambda>a. (act_id a, act_homeId a, act_date a))
     (filter (\<lambda>a. 20736 \<le> act_date a)
       (activities
         (phase5_home (days 20760)
            [\<lparr>cl_id = 101, cl_admissionDate = 20675, cl_homeId = 1, cl_bedId = 11,
              cl_isActive = False, cl_createdAt = days 20675, cl_createdById = 21,
              cl_dischargeDate = Some 20736, cl_dischargeReason = Some ''Family relocation''\<rparr>]
            1 (days 20630) [21, 22]
            \<lparr>activities = [], activityParticipants = [],
             arnd = \<lparr>tape = replicate 121 0 @ [6], entropy = [200 ..< 240]\<rparr>\<rparr>)))
     = [(232, 1, 20741)]
   \<and> map par_clientId
     (filter (\<lambda>p. par_activityId p = 232)
       (activityParticipants
         (phase5_home (days 20760)
            [\<lparr>cl_id = 101, cl_admissionDate = 20675, cl_homeId = 1, cl_bedId = 11,
              cl_isActive = False, cl_createdAt = days 20675, cl_createdById = 21,
              cl_dischargeDate = Some 20736, cl_dischargeReason = Some ''Family relocation''\<rparr>]
            1 (days 20630) [21, 22]
            \<lparr>activities = [], activityParticipants = [],
             arnd = \<lparr>tape = replicate 121 0 @ [6], entropy = [200 ..< 240]\<rparr>\<rparr>)))
     = [101]"
  by code_simp

text \<open>
  C7. At the end of phase 3, when the identifiers of the clients are pairwise different
  (as UUIDs are), every client is active exactly if it has no discharge date; the ledger
  of its home holds an interval of the client in the list of its bed; and whenever a
  ledger holds an interval of the client, the client is inactive exactly if that
  interval is closed, and a closed interval ends at a time whose date is the discharge
  date of the client.
\<close>

theorem client_active_flag_matches_interval:
  assumes "phase3 END_DATE homes [] w = (cls, ledgers, w')" and "distinct (map cl_id cls)"
  shows "\<forall>c\<in>set cls.
       (cl_isActive c \<longleftrightarrow> cl_dischargeDate c = None)
     \<and> (\<exists>led occ s e. (cl_homeId c, led) \<in> set ledgers \<and> (cl_bedId c, occ) \<in> set led
            \<and> (s, e, cl_id c) \<in> set occ)
     \<and> (\<forall>h led b occ s e.
            (h, led) \<in> set ledgers \<and> (b, occ) \<in> set led \<and> (s, e, cl_id c) \<in> set occ \<longrightarrow>
              (\<not> cl_isActive c \<longleftrightarrow> e \<noteq> None)
            \<and> (\<forall>d. e = Some d \<longrightarrow> cl_dischargeDate c = Some (date_of d)))"
proof
  fix c assume c: "c \<in> set cls"
  have i0: "ledger_inv [] []" by (simp add: ledger_inv_def)
  from phase3_inv[OF i0 assms]
  have inv: "ledger_inv cls (concat (map (\<lambda>(h, led). entries_of led) ledgers))"
    and ent: "\<forall>c\<in>set cls. \<exists>led. (cl_homeId c, led) \<in> set ledgers \<and> has_entry led c"
    by simp_all
  let ?E = "concat (map (\<lambda>(h, led). entries_of led) ledgers)"
  from inv have j1: "\<forall>c\<in>set cls. cl_isActive c \<longleftrightarrow> cl_dischargeDate c = None"
    and j2: "\<forall>iv\<in>set ?E. \<forall>c\<in>set cls. cl_id c = entry_client iv \<longrightarrow> consistent c (fst (snd iv))"
    unfolding ledger_inv_iff by blast+
  have a: "cl_isActive c \<longleftrightarrow> cl_dischargeDate c = None" using j1 c by blast
  obtain led where led: "(cl_homeId c, led) \<in> set ledgers" "has_entry led c"
    using ent c by blast
  then obtain occ iv where "(cl_bedId c, occ) \<in> set led" "iv \<in> set occ" "entry_client iv = cl_id c"
    unfolding has_entry_iff by blast
  then have b: "\<exists>led occ s e. (cl_homeId c, led) \<in> set ledgers \<and> (cl_bedId c, occ) \<in> set led
            \<and> (s, e, cl_id c) \<in> set occ"
    using led(1) by (cases iv) (auto simp: entry_client_def)
  have d: "(\<not> cl_isActive c \<longleftrightarrow> e \<noteq> None) \<and> (\<forall>d. e = Some d \<longrightarrow> cl_dischargeDate c = Some (date_of d))"
    if "(h, led) \<in> set ledgers" "(b, occ) \<in> set led" "(s, e, cl_id c) \<in> set occ"
    for h led b occ s e
  proof -
    have "(s, e, cl_id c) \<in> set (entries_of led)"
      using that(2,3) unfolding entries_of_def by force
    then have "(s, e, cl_id c) \<in> set ?E" using that(1) by force
    then have "consistent c e" using j2 c by (force simp: entry_client_def)
    then show ?thesis by (auto simp: consistent_def)
  qed
  show "(cl_isActive c \<longleftrightarrow> cl_dischargeDate c = None)
     \<and> (\<exists>led occ s e. (cl_homeId c, led) \<in> set ledgers \<and> (cl_bedId c, occ) \<in> set led
            \<and> (s, e, cl_id c) \<in> set occ)
     \<and> (\<forall>h led b occ s e.
            (h, led) \<in> set ledgers \<and> (b, occ) \<in> set led \<and> (s, e, cl_id c) \<in> set occ \<longrightarrow>
              (\<not> cl_isActive c \<longleftrightarrow> e \<noteq> None)
            \<and> (\<forall>d. e = Some d \<longrightarrow> cl_dischargeDate c = Some (date_of d)))"
    using a b d by blast
qed

theorem client_active_flag_matches_interval_witness:
  "\<exists>cls w'.
     phase3 (days 20760) [(1, days 20630, [11, 12], [21])] []
       \<lparr>tape = [0, 0, 0, 9007199254740991, 0, 0, 9007199254740991, 0], entropy = [101, 102]\<rparr>
       = (cls, [(1, [(11, [(days 20630, None, 101)]),
                     (12, [(days 20675, Some (days 20735), 102)])])], w')
     \<and> map cl_id cls = [101, 102] \<and> distinct (map cl_id cls)
     \<and> cl_isActive (cls ! 0) \<and> cl_dischargeDate (cls ! 0) = None
     \<and> \<not> cl_isActive (cls ! 1) \<and> cl_dischargeDate (cls ! 1) = Some (date_of (days 20735))"
proof -
  let ?run = "phase3 (days 20760) [(1, days 20630, [11, 12], [21])] []
       \<lparr>tape = [0, 0, 0, 9007199254740991, 0, 0, 9007199254740991, 0], entropy = [101, 102]\<rparr>"
  let ?L = "[(1, [(11, [(days 20630, None, 101)]),
                  (12, [(days 20675, Some (days 20735), 102)])])] :: (uuid \<times> ledger) list"
  have ev: "(\<lambda>(cls, L, w'). (map cl_id cls, L)) ?run = ([101, 102], ?L)"
    by code_simp
  obtain cls L w' where run: "?run = (cls, L, w')" by (cases ?run) auto
  have ids: "map cl_id cls = [101, 102]" and L: "L = ?L" using ev run by simp_all
  have d: "distinct (map cl_id cls)" unfolding ids by simp
  have len: "length cls = 2" using arg_cong[OF ids, of length] by simp
  have i0: "cl_id (cls ! 0) = 101" and i1: "cl_id (cls ! 1) = 102"
    using arg_cong[OF ids, of "\<lambda>l. l ! 0"] arg_cong[OF ids, of "\<lambda>l. l ! 1"] len by simp_all
  have m0: "cls ! 0 \<in> set cls" and m1: "cls ! 1 \<in> set cls" using len by simp_all
  note main = client_active_flag_matches_interval[OF run d]
  have e0: "(1, [(11, [(days 20630, None, 101)]), (12, [(days 20675, Some (days 20735), 102)])]) \<in> set L
      \<and> (11, [(days 20630, None, 101)]) \<in> set [(11, [(days 20630, None, 101)]), (12, [(days 20675, Some (days 20735), 102)])]
      \<and> (days 20630, None, cl_id (cls ! 0)) \<in> set [(days 20630, None, 101)]"
    unfolding L i0 by simp
  have e1: "(1, [(11, [(days 20630, None, 101)]), (12, [(days 20675, Some (days 20735), 102)])]) \<in> set L
      \<and> (12, [(days 20675, Some (days 20735), 102)]) \<in> set [(11, [(days 20630, None, 101)]), (12, [(days 20675, Some (days 20735), 102)])]
      \<and> (days 20675, Some (days 20735), cl_id (cls ! 1)) \<in> set [(days 20675, Some (days 20735), 102)]"
    unfolding L i1 by simp
  have r0: "cl_isActive (cls ! 0) \<and> cl_dischargeDate (cls ! 0) = None"
    using main[rule_format, OF m0] e0 by blast
  have r1: "\<not> cl_isActive (cls ! 1) \<and> cl_dischargeDate (cls ! 1) = Some (date_of (days 20735))"
    using main[rule_format, OF m1] e1 by blast
  show ?thesis
    apply (rule exI[of _ cls])
    apply (rule exI[of _ w'])
    using run[unfolded L] ids d r0 r1 apply (intro conjI)
          apply (elim conjE, assumption)+
    done
qed

end
